theory Spec2Isabelle
  imports
    Complex_Main
    "HOL-Library.AList"
    "HOL-Library.Char_ord"
    "HOL-Library.List_Lexorder"
    "HOL-Library.Multiset"
begin

section \<open>JSON values and the Python operations the tools apply to them\<close>

text \<open>
  Every tool reads its input with \<^verbatim>\<open>json.load\<close> and works on the resulting Python
  values. A JSON object is a Python dict, kept here as an association list in insertion
  order (lookup is \<^const>\<open>map_of\<close>, assignment to a key is \<^const>\<open>AList.update\<close>, which
  overwrites in place or appends, as a dict does). Numbers are reals: every finite
  Python int or float denotes one, and comparing them is exact; NaN and the infinities
  are outside the model. Strings are character lists, one character for each code
  point. The keys of a dict read from JSON are distinct; no theorem below depends on it.
\<close>

datatype json =
    JNull
  | JBool bool
  | JNum real
  | JStr string
  | JArr "json list"
  | JObj "(string \<times> json) list"

type_synonym dict = "(string \<times> json) list"

datatype py_error = KeyError | TypeError | AttributeError | IndexError | ZeroDivisionError

definition bind_err :: "py_error + 'a \<Rightarrow> ('a \<Rightarrow> py_error + 'b) \<Rightarrow> py_error + 'b" where
  "bind_err m f = (case m of Inl e \<Rightarrow> Inl e | Inr v \<Rightarrow> f v)"

text \<open>\<^verbatim>\<open>x[k]\<close> with a string key: only a dict accepts it.\<close>

fun py_getitem :: "json \<Rightarrow> string \<Rightarrow> py_error + json" where
  "py_getitem (JObj d) k = (case map_of d k of None \<Rightarrow> Inl KeyError | Some v \<Rightarrow> Inr v)"
| "py_getitem _ k = Inl TypeError"


text \<open>\<^verbatim>\<open>len(x)\<close>.\<close>

fun py_len :: "json \<Rightarrow> py_error + nat" where
  "py_len (JArr xs) = Inr (length xs)"
| "py_len (JStr s) = Inr (length s)"
| "py_len (JObj d) = Inr (length d)"
| "py_len _ = Inl TypeError"

text \<open>
  \<^verbatim>\<open>x[i]\<close> with a non-negative integer index. The keys of a JSON object are strings, so an
  integer is never among them.
\<close>

fun py_index :: "json \<Rightarrow> nat \<Rightarrow> py_error + json" where
  "py_index (JArr xs) i = (if i < length xs then Inr (xs ! i) else Inl IndexError)"
| "py_index (JStr s) i = (if i < length s then Inr (JStr [s ! i]) else Inl IndexError)"
| "py_index (JObj d) i = Inl KeyError"
| "py_index _ i = Inl TypeError"



text \<open>A bool is an int in Python: \<^verbatim>\<open>True == 1\<close> and \<^verbatim>\<open>False < 0.5\<close>.\<close>

fun as_number :: "json \<Rightarrow> real option" where
  "as_number (JNum x) = Some x"
| "as_number (JBool b) = Some (if b then 1 else 0)"
| "as_number _ = None"

text \<open>
  \<^verbatim>\<open>a == b\<close>: numbers by value, strings and lists elementwise, dicts as sets of items,
  values of different kinds are unequal.
\<close>

fun py_eq :: "json \<Rightarrow> json \<Rightarrow> bool" where
  "py_eq JNull JNull = True"
| "py_eq (JStr s) (JStr t) = (s = t)"
| "py_eq (JArr xs) (JArr ys) = list_all2 py_eq xs ys"
| "py_eq (JObj d) (JObj e) =
     (fst ` set d = fst ` set e \<and>
      (\<forall>(k, v) \<in> set d. \<forall>(k', w) \<in> set e. k = k' \<longrightarrow> py_eq v w))"
| "py_eq a b = (case (as_number a, as_number b) of (Some x, Some y) \<Rightarrow> x = y | _ \<Rightarrow> False)"

text \<open>
  \<^verbatim>\<open>a < b\<close>: defined between two numbers, two strings (lexicographic) and two lists (the
  first pair of unequal elements decides, then the lengths); a \<^verbatim>\<open>TypeError\<close> otherwise,
  in particular when a side is \<^verbatim>\<open>None\<close>.
\<close>

fun py_lt :: "json \<Rightarrow> json \<Rightarrow> py_error + bool" where
  "py_lt (JStr s) (JStr t) = Inr (s < t)"
| "py_lt (JArr []) (JArr []) = Inr False"
| "py_lt (JArr []) (JArr (y # ys)) = Inr True"
| "py_lt (JArr (x # xs)) (JArr []) = Inr False"
| "py_lt (JArr (x # xs)) (JArr (y # ys)) =
     (if py_eq x y then py_lt (JArr xs) (JArr ys) else py_lt x y)"
| "py_lt a b =
     (case (as_number a, as_number b) of
        (Some x, Some y) \<Rightarrow> Inr (x < y)
      | _ \<Rightarrow> Inl TypeError)"

text \<open>\<^verbatim>\<open>a > b\<close> on these values is \<^verbatim>\<open>b < a\<close>.\<close>

definition py_gt :: "json \<Rightarrow> json \<Rightarrow> py_error + bool" where
  "py_gt a b = py_lt b a"

text \<open>
  A \<^verbatim>\<open>for\<close> loop whose body appends to one output list: the outputs of the iterations
  in order, and the first exception ends the run.
\<close>

fun for_each :: "('a \<Rightarrow> py_error + 'b list) \<Rightarrow> 'a list \<Rightarrow> py_error + 'b list" where
  "for_each body [] = Inr []"
| "for_each body (x # xs) =
     bind_err (body x) (\<lambda>ys. bind_err (for_each body xs) (\<lambda>zs. Inr (ys @ zs)))"


section \<open>Pairwise expansion (\<^verbatim>\<open>convert_to_dpo.py\<close>)\<close>

text \<open>The dict literal of lines 44--63; its values are evaluated in the order written.\<close>

definition dpo_entry :: "json \<Rightarrow> json \<Rightarrow> json \<Rightarrow> py_error + json" where
  "dpo_entry user_input chosen rejected =
     bind_err (py_getitem chosen ''response'') (\<lambda>chosen_response.
     bind_err (py_getitem rejected ''response'') (\<lambda>rejected_response.
     bind_err (py_getitem chosen ''score'') (\<lambda>chosen_score.
     bind_err (py_getitem rejected ''score'') (\<lambda>rejected_score.
     bind_err (py_getitem chosen ''source'') (\<lambda>chosen_source.
     bind_err (py_getitem rejected ''source'') (\<lambda>rejected_source.
       Inr (JObj
         [(''conversation'', JArr [JObj [(''from'', JStr ''human''), (''value'', user_input)]]),
          (''chosen'', JObj [(''from'', JStr ''gpt''), (''value'', chosen_response)]),
          (''rejected'', JObj [(''from'', JStr ''gpt''), (''value'', rejected_response)]),
          (''chosen_score'', chosen_score),
          (''rejected_score'', rejected_score),
          (''chosen_source'', chosen_source),
          (''rejected_source'', rejected_source)])))))))"

text \<open>The body of the inner loop (lines 29--65) at indices \<open>i\<close> and \<open>j\<close>.\<close>

definition pair_body :: "json \<Rightarrow> json \<Rightarrow> nat \<Rightarrow> nat \<Rightarrow> py_error + json list" where
  "pair_body user_input responses_and_scores i j =
     bind_err (py_index responses_and_scores i) (\<lambda>response_1.
     bind_err (py_index responses_and_scores j) (\<lambda>response_2.
     bind_err (py_getitem response_1 ''score'') (\<lambda>s1.
     bind_err (py_getitem response_2 ''score'') (\<lambda>s2.
     bind_err (py_gt s1 s2) (\<lambda>first_higher.
       if first_higher then
         bind_err (dpo_entry user_input response_1 response_2) (\<lambda>e. Inr [e])
       else
         bind_err (py_gt s2 s1) (\<lambda>second_higher.
           if second_higher then
             bind_err (dpo_entry user_input response_2 response_1) (\<lambda>e. Inr [e])
           else Inr []))))))"

text \<open>One pass of the loop over the entries (lines 23--65).\<close>

definition convert_entry :: "json \<Rightarrow> py_error + json list" where
  "convert_entry entry =
     bind_err (py_getitem entry ''user_input'') (\<lambda>user_input.
     bind_err (py_getitem entry ''responses_and_scores'') (\<lambda>responses_and_scores.
     bind_err (py_len responses_and_scores) (\<lambda>n.
       for_each (\<lambda>i. for_each (\<lambda>j. pair_body user_input responses_and_scores i j) [i + 1 ..< n])
         [0 ..< n])))"

text \<open>\<^verbatim>\<open>dpo_data\<close> after the loop of lines 19--65.\<close>

definition convert_to_dpo_format :: "json list \<Rightarrow> py_error + json list" where
  "convert_to_dpo_format comparison_data = for_each convert_entry comparison_data"

text \<open>
  A candidate as the data model describes it: a dict with a response, a numeric score
  and a source.
\<close>

fun candidate_score :: "json \<Rightarrow> real option" where
  "candidate_score (JObj d) =
     (case map_of d ''score'' of
        Some (JNum x) \<Rightarrow>
          (if map_of d ''response'' \<noteq> None \<and> map_of d ''source'' \<noteq> None then Some x else None)
      | _ \<Rightarrow> None)"
| "candidate_score _ = None"


text \<open>
  The index pairs \<open>(i, j)\<close> with \<open>i < j < n\<close>, in the order in which the two loops reach
  them.
\<close>

definition index_pairs :: "nat \<Rightarrow> (nat \<times> nat) list" where
  "index_pairs n = concat (map (\<lambda>i. map (Pair i) [i + 1 ..< n]) [0 ..< n])"

text \<open>
  The comparison pair of the data model for a prompt, a chosen and a rejected candidate,
  in the layout of the converted file: the text, the score and the source of each side
  are those of its candidate.
\<close>

definition candidate_field :: "json \<Rightarrow> string \<Rightarrow> json" where
  "candidate_field c k = (case py_getitem c k of Inr v \<Rightarrow> v | Inl e \<Rightarrow> JNull)"

definition comparison_pair :: "json \<Rightarrow> json \<Rightarrow> json \<Rightarrow> json" where
  "comparison_pair prompt chosen rejected =
     JObj
       [(''conversation'', JArr [JObj [(''from'', JStr ''human''), (''value'', prompt)]]),
        (''chosen'', JObj [(''from'', JStr ''gpt''), (''value'', candidate_field chosen ''response'')]),
        (''rejected'', JObj [(''from'', JStr ''gpt''), (''value'', candidate_field rejected ''response'')]),
        (''chosen_score'', candidate_field chosen ''score''),
        (''rejected_score'', candidate_field rejected ''score''),
        (''chosen_source'', candidate_field chosen ''source''),
        (''rejected_source'', candidate_field rejected ''source'')]"

text \<open>The first of two candidates has the strictly higher score.\<close>

definition higher_score :: "json \<Rightarrow> json \<Rightarrow> bool" where
  "higher_score c1 c2 =
     (case (candidate_score c1, candidate_score c2) of
        (Some x, Some y) \<Rightarrow> y < x
      | _ \<Rightarrow> False)"

text \<open>The record of the specification's worked example: scores 3, 5 and 5.\<close>

definition example_candidates :: "json list" where
  "example_candidates =
     [JObj [(''response'', JStr ''A''), (''score'', JNum 3), (''source'', JStr ''m1'')],
      JObj [(''response'', JStr ''B''), (''score'', JNum 5), (''source'', JStr ''m2'')],
      JObj [(''response'', JStr ''C''), (''score'', JNum 5), (''source'', JStr ''m3'')]]"

definition example_entry :: json where
  "example_entry =
     JObj [(''user_input'', JStr ''P''), (''responses_and_scores'', JArr example_candidates)]"

definition example_pair :: "string \<Rightarrow> string \<Rightarrow> json" where
  "example_pair response source =
     JObj
       [(''conversation'', JArr [JObj [(''from'', JStr ''human''), (''value'', JStr ''P'')]]),
        (''chosen'', JObj [(''from'', JStr ''gpt''), (''value'', JStr response)]),
        (''rejected'', JObj [(''from'', JStr ''gpt''), (''value'', JStr ''A'')]),
        (''chosen_score'', JNum 5),
        (''rejected_score'', JNum 3),
        (''chosen_source'', JStr source),
        (''rejected_source'', JStr ''m1'')]"


section \<open>Rebalancing (\<^verbatim>\<open>tools/downsample_scores.py\<close>)\<close>

text \<open>
  The loop of lines 29--44, with the two lists it appends to. An item that is not a dict
  is passed over; a dict without one of the two score keys goes to \<^verbatim>\<open>greater_equal\<close>.
\<close>

fun classify :: "json list \<Rightarrow> json list \<times> json list \<Rightarrow> py_error + json list \<times> json list" where
  "classify [] (less_than', greater_equal) = Inr (less_than', greater_equal)"
| "classify (item # rest) (less_than', greater_equal) =
     (case item of
        JObj d \<Rightarrow>
          (case (map_of d ''chosen_score'', map_of d ''rejected_score'') of
             (Some chosen_score, Some rejected_score) \<Rightarrow>
               bind_err (py_lt chosen_score rejected_score) (\<lambda>lt.
                 if lt then classify rest (less_than' @ [item], greater_equal)
                 else classify rest (less_than', greater_equal @ [item]))
           | _ \<Rightarrow> classify rest (less_than', greater_equal @ [item]))
      | _ \<Rightarrow> classify rest (less_than', greater_equal))"

text \<open>\<^verbatim>\<open>int(x)\<close> on a float truncates towards zero.\<close>

definition py_int :: "real \<Rightarrow> int" where
  "py_int x = (if 0 \<le> x then \<lfloor>x\<rfloor> else \<lceil>x\<rceil>)"

text \<open>\<^verbatim>\<open>xs[:n]\<close>; a negative \<open>n\<close> counts from the end.\<close>

definition slice_to :: "'a list \<Rightarrow> int \<Rightarrow> 'a list" where
  "slice_to xs n = (if 0 \<le> n then take (nat n) xs else take (length xs - nat (- n)) xs)"

text \<open>
  Float division \<^verbatim>\<open>x / y\<close>: a zero divisor raises. The arithmetic of lines 87--101 is
  Python's float arithmetic: each operation (and the conversion of an int operand)
  yields the rounding \<open>fl\<close> of the exact result. The rounding is a parameter, so that
  what a theorem needs of it is one of its hypotheses.
\<close>

definition py_truediv :: "(real \<Rightarrow> real) \<Rightarrow> real \<Rightarrow> real \<Rightarrow> py_error + real" where
  "py_truediv fl x y = (if y = 0 then Inl ZeroDivisionError else Inr (fl (x / y)))"

text \<open>Lines 87--101: \<^verbatim>\<open>required_less\<close> and \<^verbatim>\<open>required_greater_equal\<close>.\<close>

definition sample_counts ::
  "(real \<Rightarrow> real) \<Rightarrow> real \<Rightarrow> nat \<Rightarrow> nat \<Rightarrow> py_error + int \<times> int" where
  "sample_counts fl target_ratio total_less total_greater_equal =
     bind_err (py_truediv fl (fl (target_ratio * fl (real total_greater_equal)))
                 (fl (1 - target_ratio))) (\<lambda>q.
     let required_less = py_int q in
     bind_err
       (if required_less > int total_less then
          bind_err (py_truediv fl (fl (fl (real total_less) * fl (1 - target_ratio)))
                      target_ratio) (\<lambda>q'.
            Inr (int total_less, py_int q'))
        else Inr (required_less, int total_greater_equal))
       (\<lambda>(required_less, required_greater_equal).
          Inr (min required_less (int total_less),
               min required_greater_equal (int total_greater_equal))))"

text \<open>The condition counted by \<^verbatim>\<open>final_less\<close> (lines 123--126), with its short-circuits.\<close>

definition counts_as_less :: "json \<Rightarrow> py_error + bool" where
  "counts_as_less item =
     (case item of
        JObj d \<Rightarrow>
          (case map_of d ''chosen_score'' of
             None \<Rightarrow> Inr False
           | Some chosen_score \<Rightarrow>
               (case map_of d ''rejected_score'' of
                  None \<Rightarrow> Inr False
                | Some rejected_score \<Rightarrow> py_lt chosen_score rejected_score))
      | _ \<Rightarrow> Inr False)"

fun final_less :: "json list \<Rightarrow> py_error + nat" where
  "final_less [] = Inr 0"
| "final_less (item # rest) =
     bind_err (counts_as_less item) (\<lambda>c.
     bind_err (final_less rest) (\<lambda>n. Inr ((if c then 1 else 0) + n)))"

text \<open>
  \<^verbatim>\<open>downsample_dataset\<close>. \<^verbatim>\<open>random.shuffle\<close> works on the module's generator: the
  generator state \<open>g\<close> is passed along and returned, and the shuffle is a parameter.
\<close>

definition downsample_dataset ::
  "(real \<Rightarrow> real) \<Rightarrow> ('g \<Rightarrow> json list \<Rightarrow> json list \<times> 'g) \<Rightarrow> 'g \<Rightarrow> json list \<Rightarrow> real
     \<Rightarrow> py_error + json list \<times> 'g" where
  "downsample_dataset fl shuffle g data target_ratio =
     bind_err (classify data ([], [])) (\<lambda>(less_than', greater_equal).
       let total_less = length less_than';
           total_greater_equal = length greater_equal
       in
         if total_less = 0 then Inr (data, g)
         else if target_ratio \<ge> 1 then Inr (less_than', g)
         else if target_ratio \<le> 0 then Inr (greater_equal, g)
         else
           bind_err (sample_counts fl target_ratio total_less total_greater_equal)
             (\<lambda>(required_less, required_greater_equal).
                let (less_than', g) = shuffle g less_than';
                    (greater_equal, g) = shuffle g greater_equal;
                    sampled_less = slice_to less_than' required_less;
                    sampled_greater_equal = slice_to greater_equal required_greater_equal;
                    (result, g) = shuffle g (sampled_less @ sampled_greater_equal)
                in bind_err (final_less result) (\<lambda>n. Inr (result, g))))"

text \<open>\<^verbatim>\<open>isinstance(item, dict)\<close>.\<close>

fun is_dict :: "json \<Rightarrow> bool" where
  "is_dict (JObj d) = True"
| "is_dict _ = False"

text \<open>
  The two classes as predicates on an item: the predicate \<^verbatim>\<open>chosen_score < rejected_score\<close>
  holds, or the item is a dict on which it does not (a score key missing included).
\<close>

definition is_less :: "json \<Rightarrow> bool" where
  "is_less item = (counts_as_less item = Inr True)"

definition is_greater_equal :: "json \<Rightarrow> bool" where
  "is_greater_equal item = (is_dict item \<and> counts_as_less item = Inr False)"


section \<open>Canonicalization (\<^verbatim>\<open>tools/flip_scores.py\<close>)\<close>

text \<open>\<^verbatim>\<open>d.get(k, default)\<close> on a dict.\<close>

definition dict_get :: "dict \<Rightarrow> string \<Rightarrow> json \<Rightarrow> json" where
  "dict_get d k dflt = (case map_of d k of None \<Rightarrow> dflt | Some v \<Rightarrow> v)"

text \<open>
  \<^verbatim>\<open>flip_data_point\<close>: the dict is changed in place and returned; here the changed dict
  is the result. In a tuple assignment the right-hand side is evaluated first and the
  targets are then assigned from left to right.
\<close>

definition flip_data_point :: "dict \<Rightarrow> py_error + dict" where
  "flip_data_point data_point =
     (case (map_of data_point ''chosen_score'', map_of data_point ''rejected_score'') of
        (Some chosen_score, Some rejected_score) \<Rightarrow>
          bind_err (py_lt chosen_score rejected_score) (\<lambda>lt.
            if lt then
              let data_point =
                    AList.update ''rejected_score'' chosen_score
                      (AList.update ''chosen_score'' rejected_score data_point)
              in (case (map_of data_point ''chosen'', map_of data_point ''rejected'') of
                    (Some chosen, Some rejected) \<Rightarrow>
                      Inr (AList.update ''rejected'' chosen
                            (AList.update ''chosen'' rejected data_point))
                  | _ \<Rightarrow> Inr data_point)
            else Inr data_point)
      | _ \<Rightarrow> Inr data_point)"

text \<open>
  The body of the loop of \<^verbatim>\<open>process_json_file\<close> (lines 87--99): the data point after the
  pass, and what the pass adds to \<^verbatim>\<open>flipped_count\<close>.
\<close>

definition process_data_point :: "json \<Rightarrow> py_error + json \<times> nat" where
  "process_data_point data_point =
     (case data_point of
        JObj d \<Rightarrow>
          (let original_chosen_score = dict_get d ''chosen_score'' JNull;
               original_rejected_score = dict_get d ''rejected_score'' JNull
           in if original_chosen_score = JNull \<or> original_rejected_score = JNull
              then Inr (data_point, 0)
              else
                bind_err (py_lt original_chosen_score original_rejected_score) (\<lambda>lt.
                  if lt then bind_err (flip_data_point d) (\<lambda>d'. Inr (JObj d', 1))
                  else Inr (data_point, 0)))
      | _ \<Rightarrow> Inr (data_point, 0))"

text \<open>The loop itself (lines 81--99): the list after it, and \<^verbatim>\<open>flipped_count\<close>.\<close>

fun process_data_points :: "json list \<Rightarrow> py_error + json list \<times> nat" where
  "process_data_points [] = Inr ([], 0)"
| "process_data_points (data_point # rest) =
     bind_err (process_data_point data_point) (\<lambda>(p, c).
     bind_err (process_data_points rest) (\<lambda>(ps, n). Inr (p # ps, c + n)))"

text \<open>Enforce mode as a transformation of the collection.\<close>

definition enforce :: "json list \<Rightarrow> py_error + json list" where
  "enforce data = bind_err (process_data_points data) (\<lambda>(data, flipped_count). Inr data)"

text \<open>A pair whose chosen side has the lower score, as the expander writes its pairs.\<close>

definition inverted_pair :: dict where
  "inverted_pair =
     [(''conversations'', JArr [JObj [(''from'', JStr ''human''), (''value'', JStr ''P'')]]),
      (''chosen'', JObj [(''from'', JStr ''gpt''), (''value'', JStr ''A'')]),
      (''rejected'', JObj [(''from'', JStr ''gpt''), (''value'', JStr ''B'')]),
      (''chosen_score'', JNum 3),
      (''rejected_score'', JNum 5),
      (''chosen_source'', JStr ''m1''),
      (''rejected_source'', JStr ''m2'')]"

definition ordered_pair :: dict where
  "ordered_pair =
     [(''conversations'', JArr [JObj [(''from'', JStr ''human''), (''value'', JStr ''P'')]]),
      (''chosen'', JObj [(''from'', JStr ''gpt''), (''value'', JStr ''B'')]),
      (''rejected'', JObj [(''from'', JStr ''gpt''), (''value'', JStr ''A'')]),
      (''chosen_score'', JNum 5),
      (''rejected_score'', JNum 3),
      (''chosen_source'', JStr ''m2''),
      (''rejected_source'', JStr ''m1'')]"

text \<open>The inverted pair after \<^verbatim>\<open>flip_data_point\<close>: texts and scores exchanged, sources in place.\<close>

definition enforced_pair :: dict where
  "enforced_pair =
     [(''conversations'', JArr [JObj [(''from'', JStr ''human''), (''value'', JStr ''P'')]]),
      (''chosen'', JObj [(''from'', JStr ''gpt''), (''value'', JStr ''B'')]),
      (''rejected'', JObj [(''from'', JStr ''gpt''), (''value'', JStr ''A'')]),
      (''chosen_score'', JNum 5),
      (''rejected_score'', JNum 3),
      (''chosen_source'', JStr ''m1''),
      (''rejected_source'', JStr ''m2'')]"

text \<open>The order the enforce pass establishes on a data point whose two scores are present and not \<^verbatim>\<open>None\<close>.\<close>

definition scores_ordered :: "json \<Rightarrow> bool" where
  "scores_ordered p =
     (\<forall>d x y. p = JObj d \<and> map_of d ''chosen_score'' = Some x \<and> map_of d ''rejected_score'' = Some y
        \<and> x \<noteq> JNull \<and> y \<noteq> JNull \<longrightarrow> py_lt x y = Inr False)"


section \<open>Noise injection and the adapters to the single-output format\<close>

text \<open>
  \<^verbatim>\<open>flip_chosen_rejected\<close> of \<^verbatim>\<open>tools/flip_and_convert_to_sft.py\<close>, lines 46--58: the loop
  with the generator state; \<open>rand\<close> is \<^verbatim>\<open>random.random\<close>. The result holds \<^verbatim>\<open>flipped_data\<close>
  and \<^verbatim>\<open>flip_count\<close>.
\<close>

fun flip_loop ::
  "('g \<Rightarrow> real \<times> 'g) \<Rightarrow> real \<Rightarrow> dict list \<Rightarrow> 'g \<Rightarrow> py_error + dict list \<times> nat \<times> 'g" where
  "flip_loop rand flip_ratio [] g = Inr ([], 0, g)"
| "flip_loop rand flip_ratio (item # rest) g =
     (let new_item = item in
      bind_err
        (if fst (rand g) < flip_ratio then
           (case map_of item ''rejected'' of
              None \<Rightarrow> Inl KeyError
            | Some rejected \<Rightarrow>
                (case map_of item ''chosen'' of
                   None \<Rightarrow> Inl KeyError
                 | Some chosen \<Rightarrow>
                     Inr (AList.update ''rejected'' chosen
                           (AList.update ''chosen'' rejected new_item), 1)))
         else Inr (new_item, 0))
        (\<lambda>(new_item, c).
           bind_err (flip_loop rand flip_ratio rest (snd (rand g))) (\<lambda>(flipped_data, flip_count, g').
             Inr (new_item # flipped_data, c + flip_count, g'))))"

text \<open>
  The whole function: the optional seeding, the loop, and the percentage printed on
  line 60, whose division fails on an empty input.
\<close>

definition flip_chosen_rejected ::
  "('g \<Rightarrow> real \<times> 'g) \<Rightarrow> (int \<Rightarrow> 'g) \<Rightarrow> 'g \<Rightarrow> dict list \<Rightarrow> real \<Rightarrow> int option
     \<Rightarrow> py_error + dict list \<times> 'g" where
  "flip_chosen_rejected rand reseed g data flip_ratio seed =
     (let g = (case seed of None \<Rightarrow> g | Some s \<Rightarrow> reseed s) in
      bind_err (flip_loop rand flip_ratio data g) (\<lambda>(flipped_data, flip_count, g').
        if length data = 0 then Inl ZeroDivisionError else Inr (flipped_data, g')))"










text \<open>
  What one pass of the noise loop does to an item, given its decision: the two texts
  change places or the item is as it was, and nothing else changes.
\<close>

definition flip_step :: "bool \<Rightarrow> dict \<Rightarrow> dict \<Rightarrow> bool" where
  "flip_step flip item new_item =
     ((if flip then
         map_of item ''chosen'' \<noteq> None \<and> map_of item ''rejected'' \<noteq> None
         \<and> map_of new_item ''chosen'' = map_of item ''rejected''
         \<and> map_of new_item ''rejected'' = map_of item ''chosen''
       else new_item = item)
      \<and> (\<forall>k. k \<noteq> ''chosen'' \<and> k \<noteq> ''rejected'' \<longrightarrow> map_of new_item k = map_of item k)
      \<and> map fst new_item = map fst item)"

text \<open>\<^const>\<open>ordered_pair\<close> after a noise flip: the texts exchanged, scores and sources in place.\<close>

definition noisy_pair :: dict where
  "noisy_pair =
     [(''conversations'', JArr [JObj [(''from'', JStr ''human''), (''value'', JStr ''P'')]]),
      (''chosen'', JObj [(''from'', JStr ''gpt''), (''value'', JStr ''A'')]),
      (''rejected'', JObj [(''from'', JStr ''gpt''), (''value'', JStr ''B'')]),
      (''chosen_score'', JNum 5),
      (''rejected_score'', JNum 3),
      (''chosen_source'', JStr ''m2''),
      (''rejected_source'', JStr ''m1'')]"



text \<open>A pair that carries no scores, and the identity in the place of the shuffle.\<close>

definition unscored_pair :: dict where
  "unscored_pair =
     [(''conversations'', JArr [JObj [(''from'', JStr ''human''), (''value'', JStr ''P'')]]),
      (''chosen'', JObj [(''from'', JStr ''gpt''), (''value'', JStr ''A'')]),
      (''rejected'', JObj [(''from'', JStr ''gpt''), (''value'', JStr ''B'')])]"

definition no_shuffle :: "unit \<Rightarrow> json list \<Rightarrow> json list \<times> unit" where
  "no_shuffle g xs = (xs, g)"


text \<open>The collection of the specification's example: 10 pairs in the true class, 90 in the other.\<close>

definition example_collection :: "json list" where
  "example_collection = replicate 10 (JObj inverted_pair) @ replicate 90 (JObj ordered_pair)"


section \<open>Basic facts\<close>

lemma bind_err_Inl [simp]: "bind_err (Inl e) f = Inl e"
  by (simp add: bind_err_def)

lemma bind_err_Inr [simp]: "bind_err (Inr v) f = f v"
  by (simp add: bind_err_def)

lemma bind_err_eq_Inr:
  "bind_err m f = Inr y \<longleftrightarrow> (\<exists>v. m = Inr v \<and> f v = Inr y)"
  by (cases m) simp_all

lemma list_all2_sym_on:
  assumes "\<And>x y. x \<in> set xs \<Longrightarrow> y \<in> set ys \<Longrightarrow> P x y = P y x"
  shows "list_all2 P xs ys = list_all2 P ys xs"
  using assms
proof (induction xs arbitrary: ys)
  case Nil
  then show ?case by simp
next
  case (Cons x xs)
  show ?case
  proof (cases ys)
    case Nil
    then show ?thesis by simp
  next
    case (Cons y ys')
    have "list_all2 P xs ys' = list_all2 P ys' xs"
      by (rule Cons.IH, rule Cons.prems) (simp_all add: Cons)
    moreover have "P x y = P y x"
      by (rule Cons.prems) (simp_all add: Cons)
    ultimately show ?thesis by (simp add: Cons)
  qed
qed

lemma py_eq_sym: "py_eq a b = py_eq b a"
proof (induction a b rule: py_eq.induct)
  case (3 xs ys)
  have "list_all2 py_eq xs ys = list_all2 py_eq ys xs"
    by (rule list_all2_sym_on) (rule 3)
  then show ?case by simp
next
  case (4 d e)
  have eq: "\<And>k v w. (k, v) \<in> set d \<Longrightarrow> (k, w) \<in> set e \<Longrightarrow> py_eq v w = py_eq w v"
    by (rule 4) simp_all
  have h: "(\<forall>(k, v)\<in>set d. \<forall>(k', w)\<in>set e. k = k' \<longrightarrow> py_eq v w)
      = (\<forall>(k', w)\<in>set e. \<forall>(k, v)\<in>set d. k' = k \<longrightarrow> py_eq w v)"
    using eq by fast
  have k: "(fst ` set d = fst ` set e) = (fst ` set e = fst ` set d)"
    by (rule eq_commute)
  show ?case unfolding py_eq.simps h k by (rule refl)
qed (simp_all split: option.splits, (rule eq_commute | (intro allI impI, rule eq_commute))+)

lemma py_lt_asym: "py_lt a b = Inr True \<Longrightarrow> py_lt b a = Inr False"
proof (induction a b rule: py_lt.induct)
  case (5 x xs y ys)
  show ?case
  proof (cases "py_eq x y")
    case True
    then have "py_eq y x" by (simp add: py_eq_sym[of y x])
    with True 5 show ?thesis by simp
  next
    case False
    then have "\<not> py_eq y x" by (simp add: py_eq_sym[of y x])
    with False 5 show ?thesis by simp
  qed
qed (auto split: option.splits if_splits)

lemma py_lt_num [simp]: "py_lt (JNum a) (JNum b) = Inr (a < b)"
  by simp

lemma py_gt_num [simp]: "py_gt (JNum a) (JNum b) = Inr (b < a)"
  by (simp add: py_gt_def)

lemma for_each_mem:
  "for_each body xs = Inr out \<Longrightarrow> p \<in> set out \<Longrightarrow>
     \<exists>x \<in> set xs. \<exists>ys. body x = Inr ys \<and> p \<in> set ys"
proof (induction xs arbitrary: out)
  case Nil
  then show ?case by simp
next
  case (Cons x xs)
  from Cons.prems(1) obtain ys zs where
    ys: "body x = Inr ys" and zs: "for_each body xs = Inr zs" and out: "out = ys @ zs"
    by (auto simp: bind_err_eq_Inr)
  from Cons.prems(2) out have "p \<in> set ys \<or> p \<in> set zs" by simp
  then show ?case
  proof
    assume "p \<in> set ys"
    with ys show ?thesis by auto
  next
    assume "p \<in> set zs"
    from Cons.IH[OF zs this] show ?thesis by auto
  qed
qed

lemma for_each_total:
  "(\<And>x. x \<in> set xs \<Longrightarrow> body x = Inr (g x)) \<Longrightarrow> for_each body xs = Inr (concat (map g xs))"
  by (induction xs) simp_all


section \<open>The pairwise expansion\<close>

lemma pair_body_emits:
  assumes "pair_body u rs i j = Inr ys" and "p \<in> set ys"
  shows "\<exists>c r. py_getitem p ''chosen_score'' = Inr c \<and> py_getitem p ''rejected_score'' = Inr r
           \<and> py_gt c r = Inr True"
proof -
  from assms(1) obtain r1 r2 s1 s2 g1 where
    s1: "py_getitem r1 ''score'' = Inr s1" and s2: "py_getitem r2 ''score'' = Inr s2"
    and g1: "py_gt s1 s2 = Inr g1"
    and rest: "(if g1 then bind_err (dpo_entry u r1 r2) (\<lambda>e. Inr [e])
       else bind_err (py_gt s2 s1) (\<lambda>second_higher.
           if second_higher then bind_err (dpo_entry u r2 r1) (\<lambda>e. Inr [e]) else Inr [])) = Inr ys"
    unfolding pair_body_def bind_err_eq_Inr by blast
  have entry: "\<exists>c r. py_getitem p ''chosen_score'' = Inr c \<and> py_getitem p ''rejected_score'' = Inr r
           \<and> py_gt c r = Inr True"
    if e: "dpo_entry u ch rj = Inr p" and sc: "py_getitem ch ''score'' = Inr a"
      and sr: "py_getitem rj ''score'' = Inr b" and gt: "py_gt a b = Inr True" for ch rj a b
    using e sc sr gt unfolding dpo_entry_def bind_err_eq_Inr by auto
  show ?thesis
  proof (cases g1)
    case True
    with rest assms(2) have "dpo_entry u r1 r2 = Inr p"
      by (auto simp: bind_err_eq_Inr)
    from entry[OF this s1 s2] g1 True show ?thesis by simp
  next
    case False
    with rest obtain g2 where g2: "py_gt s2 s1 = Inr g2"
      and rest2: "(if g2 then bind_err (dpo_entry u r2 r1) (\<lambda>e. Inr [e]) else Inr []) = Inr ys"
      by (auto simp: bind_err_eq_Inr)
    show ?thesis
    proof (cases g2)
      case True
      with rest2 assms(2) have "dpo_entry u r2 r1 = Inr p"
        by (auto simp: bind_err_eq_Inr)
      from entry[OF this s2 s1] g2 True show ?thesis by simp
    next
      case False
      with rest2 assms(2) show ?thesis by simp
    qed
  qed
qed

lemma candidate_scoreD:
  assumes "candidate_score c = Some x"
  obtains d r s where "c = JObj d" "map_of d ''score'' = Some (JNum x)"
    "map_of d ''response'' = Some r" "map_of d ''source'' = Some s"
proof (cases c)
  case (JObj d)
  with assms have "\<exists>r s. map_of d ''score'' = Some (JNum x) \<and> map_of d ''response'' = Some r
      \<and> map_of d ''source'' = Some s"
    by (auto split: option.splits json.splits if_splits)
  with JObj that show ?thesis by blast
qed (use assms in simp_all)

lemma dpo_entry_candidates:
  assumes "candidate_score c1 = Some a" and "candidate_score c2 = Some b"
  shows "\<exists>e. dpo_entry u c1 c2 = Inr e"
proof -
  from assms(1) obtain d1 r1 s1 where c1: "c1 = JObj d1" "map_of d1 ''score'' = Some (JNum a)"
    "map_of d1 ''response'' = Some r1" "map_of d1 ''source'' = Some s1"
    by (rule candidate_scoreD)
  from assms(2) obtain d2 r2 s2 where c2: "c2 = JObj d2" "map_of d2 ''score'' = Some (JNum b)"
    "map_of d2 ''response'' = Some r2" "map_of d2 ''source'' = Some s2"
    by (rule candidate_scoreD)
  show ?thesis by (simp add: dpo_entry_def c1 c2)
qed

lemma pair_body_candidates:
  assumes "i < length cs" and "j < length cs"
    and "candidate_score (cs ! i) = Some a" and "candidate_score (cs ! j) = Some b"
  shows "\<exists>ys. pair_body u (JArr cs) i j = Inr ys \<and> length ys = (if a = b then 0 else 1)"
proof -
  from assms(3) obtain d1 where c1: "cs ! i = JObj d1" "map_of d1 ''score'' = Some (JNum a)"
    by (rule candidate_scoreD)
  from assms(4) obtain d2 where c2: "cs ! j = JObj d2" "map_of d2 ''score'' = Some (JNum b)"
    by (rule candidate_scoreD)
  from dpo_entry_candidates[OF assms(3) assms(4)] obtain e12 where
    e12: "dpo_entry u (JObj d1) (JObj d2) = Inr e12" by (auto simp: c1 c2)
  from dpo_entry_candidates[OF assms(4) assms(3)] obtain e21 where
    e21: "dpo_entry u (JObj d2) (JObj d1) = Inr e21" by (auto simp: c1 c2)
  show ?thesis
    using assms(1,2) by (simp add: pair_body_def c1 c2 e12 e21)
qed

lemma for_each_length:
  assumes "\<And>x. x \<in> set xs \<Longrightarrow> \<exists>ys. body x = Inr ys \<and> length ys = f x"
  shows "\<exists>out. for_each body xs = Inr out \<and> length out = sum_list (map f xs)"
  using assms
proof (induction xs)
  case Nil
  then show ?case by simp
next
  case (Cons x xs)
  from Cons.prems[of x] obtain ys where ys: "body x = Inr ys" "length ys = f x" by auto
  from Cons.IH Cons.prems obtain zs where
    zs: "for_each body xs = Inr zs" "length zs = sum_list (map f xs)" by auto
  show ?case by (simp add: ys zs)
qed

lemma card_index_pairs: "card {(i, j). i < j \<and> j < (n::nat)} = n choose 2"
proof (induction n)
  case 0
  then show ?case by simp
next
  case (Suc n)
  have split: "{(i, j). i < j \<and> j < Suc n} = {(i, j). i < j \<and> j < n} \<union> (\<lambda>i. (i, n)) ` {..<n}"
    by (auto simp: less_Suc_eq)
  have fin: "finite {(i, j). i < j \<and> j < n}"
    by (rule finite_subset[of _ "{..<n} \<times> {..<n}"]) auto
  have disj: "{(i, j). i < j \<and> j < n} \<inter> (\<lambda>i. (i, n)) ` {..<n} = {}"
    by auto
  have "card ((\<lambda>i. (i, n)) ` {..<n}) = n"
    by (simp add: card_image inj_on_def)
  with split fin disj Suc have "card {(i, j). i < j \<and> j < Suc n} = (n choose 2) + n"
    by (simp add: card_Un_disjoint)
  also have "\<dots> = Suc n choose 2"
    by (simp add: numeral_2_eq_2)
  finally show ?case .
qed

lemma count_differing:
  fixes s :: "nat \<Rightarrow> 'a"
  shows "sum_list (map (\<lambda>i. sum_list (map (\<lambda>j. if s i = s j then 0 else (1::nat)) [i + 1 ..< n])) [0 ..< n])
       + card {(i, j). i < j \<and> j < n \<and> s i = s j} = n choose 2"
proof -
  let ?A = "{(i, j). i < j \<and> j < n}"
  let ?S = "SIGMA i:{0..<n}. {Suc i..<n}"
  have S: "?S = ?A" by auto
  have fin: "finite ?S" by simp
  have "sum_list (map (\<lambda>i. sum_list (map (\<lambda>j. if s i = s j then 0 else (1::nat)) [i + 1 ..< n])) [0 ..< n])
      = (\<Sum>i\<in>{0..<n}. \<Sum>j\<in>{Suc i..<n}. if s i = s j then 0 else 1)"
    by (simp add: interv_sum_list_conv_sum_set_nat)
  also have "\<dots> = (\<Sum>(i, j)\<in>?S. if s i = s j then 0 else 1)"
    by (rule sum.Sigma) simp_all
  also have "\<dots> = (\<Sum>p\<in>?S. if s (fst p) \<noteq> s (snd p) then 1 else 0)"
    by (rule sum.cong) auto
  also have "\<dots> = card {p \<in> ?S. s (fst p) \<noteq> s (snd p)}"
    using fin by (simp add: sum.If_cases Int_def)
  finally have len: "sum_list (map (\<lambda>i. sum_list (map (\<lambda>j. if s i = s j then 0 else (1::nat)) [i + 1 ..< n])) [0 ..< n])
      = card {p \<in> ?S. s (fst p) \<noteq> s (snd p)}" .
  have ties: "{(i, j). i < j \<and> j < n \<and> s i = s j} = {p \<in> ?S. s (fst p) = s (snd p)}"
    by auto
  have "card {p \<in> ?S. s (fst p) \<noteq> s (snd p)} + card {p \<in> ?S. s (fst p) = s (snd p)}
      = card ({p \<in> ?S. s (fst p) \<noteq> s (snd p)} \<union> {p \<in> ?S. s (fst p) = s (snd p)})"
    using fin by (subst card_Un_disjoint) auto
  also have "{p \<in> ?S. s (fst p) \<noteq> s (snd p)} \<union> {p \<in> ?S. s (fst p) = s (snd p)} = ?S"
    by auto
  also have "card ?S = n choose 2"
    unfolding S by (rule card_index_pairs)
  finally show ?thesis unfolding len ties .
qed


lemma example_entry_pairs:
  "convert_entry example_entry = Inr [example_pair ''B'' ''m2'', example_pair ''C'' ''m3'']"
  by (simp add: example_entry_def example_candidates_def example_pair_def convert_entry_def
      pair_body_def dpo_entry_def upt_rec)

lemma dpo_entry_exact:
  assumes "candidate_score c1 = Some a" and "candidate_score c2 = Some b"
  shows "dpo_entry u c1 c2 = Inr (comparison_pair u c1 c2)"
proof -
  from assms(1) obtain d1 r1 s1 where c1: "c1 = JObj d1" "map_of d1 ''score'' = Some (JNum a)"
    "map_of d1 ''response'' = Some r1" "map_of d1 ''source'' = Some s1"
    by (rule candidate_scoreD)
  from assms(2) obtain d2 r2 s2 where c2: "c2 = JObj d2" "map_of d2 ''score'' = Some (JNum b)"
    "map_of d2 ''response'' = Some r2" "map_of d2 ''source'' = Some s2"
    by (rule candidate_scoreD)
  show ?thesis
    by (simp add: dpo_entry_def comparison_pair_def candidate_field_def c1 c2)
qed

lemma pair_body_exact:
  assumes "i < length cs" and "j < length cs"
    and "candidate_score (cs ! i) = Some a" and "candidate_score (cs ! j) = Some b"
  shows "pair_body u (JArr cs) i j =
           Inr (if candidate_score (cs ! i) \<noteq> candidate_score (cs ! j)
                then [if higher_score (cs ! i) (cs ! j)
                      then comparison_pair u (cs ! i) (cs ! j)
                      else comparison_pair u (cs ! j) (cs ! i)]
                else [])"
proof -
  from assms(3) obtain d1 where c1: "cs ! i = JObj d1" "map_of d1 ''score'' = Some (JNum a)"
    by (rule candidate_scoreD)
  from assms(4) obtain d2 where c2: "cs ! j = JObj d2" "map_of d2 ''score'' = Some (JNum b)"
    by (rule candidate_scoreD)
  have e12: "dpo_entry u (JObj d1) (JObj d2) = Inr (comparison_pair u (cs ! i) (cs ! j))"
    using dpo_entry_exact[OF assms(3) assms(4), of u] by (simp add: c1 c2)
  have e21: "dpo_entry u (JObj d2) (JObj d1) = Inr (comparison_pair u (cs ! j) (cs ! i))"
    using dpo_entry_exact[OF assms(4) assms(3), of u] by (simp add: c1 c2)
  have h: "higher_score (cs ! i) (cs ! j) = (b < a)"
    by (simp add: higher_score_def assms(3,4))
  have "pair_body u (JArr cs) i j =
      Inr (if b < a then [comparison_pair u (cs ! i) (cs ! j)]
           else if a < b then [comparison_pair u (cs ! j) (cs ! i)] else [])"
    using assms(1,2) by (simp add: pair_body_def c1(1) c2(1) c1(2) c2(2) e12 e21)
  then show ?thesis
    unfolding h assms(3,4) by auto
qed

lemma concat_map_if: "concat (map (\<lambda>x. if D x then [F x] else []) xs) = map F (filter D xs)"
  by (induction xs) simp_all

lemma concat_nested:
  "concat (map (\<lambda>i. concat (map (\<lambda>j. G (i, j)) (js i))) xs)
     = concat (map G (concat (map (\<lambda>i. map (Pair i) (js i)) xs)))"
  by (induction xs) (simp_all add: comp_def)

lemma set_index_pairs: "set (index_pairs n) = {(i, j). i < j \<and> j < n}"
proof -
  have "(a, b) \<in> set (index_pairs n) \<longleftrightarrow> a < b \<and> b < n" for a b
  proof
    assume "(a, b) \<in> set (index_pairs n)"
    then show "a < b \<and> b < n" by (auto simp: index_pairs_def)
  next
    assume ab: "a < b \<and> b < n"
    then have "a \<in> {0..<n}" and "(a, b) \<in> Pair a ` {Suc a..<n}" by auto
    then have "\<exists>i\<in>{0..<n}. (a, b) \<in> Pair i ` {Suc i..<n}" by (rule bexI[rotated])
    then show "(a, b) \<in> set (index_pairs n)" by (simp add: index_pairs_def)
  qed
  then show ?thesis by auto
qed

lemma length_index_pairs: "length (index_pairs n) = n choose 2"
proof -
  have "length (index_pairs n) = sum_list (map (\<lambda>i. n - Suc i) [0 ..< n])"
    by (simp add: index_pairs_def length_concat comp_def)
  also have "\<dots> = (\<Sum>i\<in>{0..<n}. card {Suc i..<n})"
    by (simp add: interv_sum_list_conv_sum_set_nat)
  also have "\<dots> = card (SIGMA i:{0..<n}. {Suc i..<n})"
    by (simp add: card_SigmaI)
  also have "(SIGMA i:{0..<n}. {Suc i..<n}) = {(i, j). i < j \<and> j < n}"
    by auto
  also have "card \<dots> = n choose 2" by (rule card_index_pairs)
  finally show ?thesis .
qed

lemma distinct_index_pairs: "distinct (index_pairs n)"
  by (rule card_distinct) (simp add: set_index_pairs length_index_pairs card_index_pairs)

lemma convert_entry_exact:
  assumes "py_getitem entry ''user_input'' = Inr u"
    and "py_getitem entry ''responses_and_scores'' = Inr (JArr cs)"
    and "\<forall>c \<in> set cs. candidate_score c \<noteq> None"
  shows "convert_entry entry =
           Inr (map (\<lambda>(i, j). if higher_score (cs ! i) (cs ! j)
                               then comparison_pair u (cs ! i) (cs ! j)
                               else comparison_pair u (cs ! j) (cs ! i))
                  (filter (\<lambda>(i, j). candidate_score (cs ! i) \<noteq> candidate_score (cs ! j))
                     (index_pairs (length cs))))"
proof -
  let ?n = "length cs"
  let ?D = "\<lambda>(i, j). candidate_score (cs ! i) \<noteq> candidate_score (cs ! j)"
  let ?F = "\<lambda>(i, j). if higher_score (cs ! i) (cs ! j)
                               then comparison_pair u (cs ! i) (cs ! j)
                               else comparison_pair u (cs ! j) (cs ! i)"
  let ?G = "\<lambda>p. if ?D p then [?F p] else []"
  have body: "pair_body u (JArr cs) i j = Inr (?G (i, j))"
    if "i < ?n" "j < ?n" for i j
  proof -
    from that assms(3) obtain a where a: "candidate_score (cs ! i) = Some a" by fastforce
    from that assms(3) obtain b where b: "candidate_score (cs ! j) = Some b" by fastforce
    from pair_body_exact[OF that a b, of u] show ?thesis by simp
  qed
  have inner: "for_each (\<lambda>j. pair_body u (JArr cs) i j) [i + 1 ..< ?n]
                 = Inr (concat (map (\<lambda>j. ?G (i, j)) [i + 1 ..< ?n]))"
    if "i \<in> set [0 ..< ?n]" for i
    using that by (intro for_each_total body) simp_all
  have "for_each (\<lambda>i. for_each (\<lambda>j. pair_body u (JArr cs) i j) [i + 1 ..< ?n]) [0 ..< ?n]
          = Inr (concat (map (\<lambda>i. concat (map (\<lambda>j. ?G (i, j)) [i + 1 ..< ?n])) [0 ..< ?n]))"
    by (rule for_each_total) (rule inner)
  also have "concat (map (\<lambda>i. concat (map (\<lambda>j. ?G (i, j)) [i + 1 ..< ?n])) [0 ..< ?n])
      = concat (map ?G (index_pairs ?n))"
    unfolding index_pairs_def by (rule concat_nested)
  also have "\<dots> = map ?F (filter ?D (index_pairs ?n))"
    by (rule concat_map_if)
  finally have loop: "for_each (\<lambda>i. for_each (\<lambda>j. pair_body u (JArr cs) i j) [i + 1 ..< ?n]) [0 ..< ?n]
          = Inr (map ?F (filter ?D (index_pairs ?n)))" .
  show ?thesis
    using loop by (simp add: convert_entry_def assms(1,2))
qed

lemma convert_entry_count:
  assumes "py_getitem entry ''user_input'' = Inr u"
    and "py_getitem entry ''responses_and_scores'' = Inr (JArr cs)"
    and "\<forall>c \<in> set cs. candidate_score c \<noteq> None"
  shows "\<exists>out. convert_entry entry = Inr out \<and>
           length out + card {(i, j). i < j \<and> j < length cs \<and>
                                candidate_score (cs ! i) = candidate_score (cs ! j)}
             = length cs choose 2 \<and>
           ((\<forall>i j. i < j \<and> j < length cs \<longrightarrow> candidate_score (cs ! i) \<noteq> candidate_score (cs ! j))
              \<longrightarrow> length out = length cs choose 2)"
proof -
  let ?n = "length cs"
  let ?s = "\<lambda>i. candidate_score (cs ! i)"
  let ?d = "\<lambda>i j. if ?s i = ?s j then 0 else (1::nat)"
  have inner: "\<exists>ys. for_each (\<lambda>j. pair_body u (JArr cs) i j) [i + 1 ..< ?n] = Inr ys
                 \<and> length ys = sum_list (map (?d i) [i + 1 ..< ?n])"
    if i: "i \<in> set [0 ..< ?n]" for i
  proof (rule for_each_length)
    fix j assume j: "j \<in> set [i + 1 ..< ?n]"
    from i assms(3) obtain a where a: "?s i = Some a" by fastforce
    from j assms(3) obtain b where b: "?s j = Some b" by fastforce
    from i j pair_body_candidates[of i cs j a b u] a b
    show "\<exists>ys. pair_body u (JArr cs) i j = Inr ys \<and> length ys = ?d i j"
      by auto
  qed
  from for_each_length[of "[0 ..< ?n]" "\<lambda>i. for_each (\<lambda>j. pair_body u (JArr cs) i j) [i + 1 ..< ?n]"
      "\<lambda>i. sum_list (map (?d i) [i + 1 ..< ?n])", OF inner]
  obtain out where out: "for_each (\<lambda>i. for_each (\<lambda>j. pair_body u (JArr cs) i j) [i + 1 ..< ?n]) [0 ..< ?n] = Inr out"
    and len: "length out = sum_list (map (\<lambda>i. sum_list (map (?d i) [i + 1 ..< ?n])) [0 ..< ?n])"
    by blast
  have conv: "convert_entry entry = Inr out"
    using out by (simp add: convert_entry_def assms(1,2))
  have count: "length out + card {(i, j). i < j \<and> j < ?n \<and> ?s i = ?s j} = ?n choose 2"
    unfolding len by (rule count_differing)
  have "length out = ?n choose 2"
    if "\<forall>i j. i < j \<and> j < ?n \<longrightarrow> ?s i \<noteq> ?s j"
  proof -
    from that have "{(i, j). i < j \<and> j < ?n \<and> ?s i = ?s j} = {}" by auto
    with count show ?thesis by simp
  qed
  with conv count show ?thesis by blast
qed

text \<open>
  Claim C1. For a record with a prompt and \<open>n\<close> candidates (each a dict with a response, a
  numeric score and a source), the expansion goes through all the index pairs
  \<open>i < j < n\<close>, of which there are \<open>C(n,2)\<close>, and its output is, in that order, one
  comparison pair for each index pair whose two scores differ, with the candidate of
  the higher score as chosen and the other as rejected; an index pair with equal scores
  gives nothing. So the number of emitted pairs plus the number \<open>k\<close> of tied index pairs
  is \<open>C(n,2)\<close>, and without ties the expansion emits exactly \<open>C(n,2)\<close> pairs.
\<close>

theorem expander_pair_count:
  assumes "py_getitem entry ''user_input'' = Inr u"
    and "py_getitem entry ''responses_and_scores'' = Inr (JArr cs)"
    and "\<forall>c \<in> set cs. candidate_score c \<noteq> None"
  shows "convert_entry entry =
           Inr (map (\<lambda>(i, j). if higher_score (cs ! i) (cs ! j)
                               then comparison_pair u (cs ! i) (cs ! j)
                               else comparison_pair u (cs ! j) (cs ! i))
                  (filter (\<lambda>(i, j). candidate_score (cs ! i) \<noteq> candidate_score (cs ! j))
                     (index_pairs (length cs))))
       \<and> set (index_pairs (length cs)) = {(i, j). i < j \<and> j < length cs}
       \<and> distinct (index_pairs (length cs))
       \<and> length (index_pairs (length cs)) = length cs choose 2
       \<and> (\<exists>out. convert_entry entry = Inr out \<and>
             length out + card {(i, j). i < j \<and> j < length cs \<and>
                                  candidate_score (cs ! i) = candidate_score (cs ! j)}
               = length cs choose 2 \<and>
             ((\<forall>i j. i < j \<and> j < length cs
                  \<longrightarrow> candidate_score (cs ! i) \<noteq> candidate_score (cs ! j))
                \<longrightarrow> length out = length cs choose 2))"
  by (intro conjI convert_entry_exact[OF assms] set_index_pairs distinct_index_pairs
      length_index_pairs convert_entry_count[OF assms])

theorem expander_pair_count_witness:
  "py_getitem example_entry ''user_input'' = Inr (JStr ''P'') \<and>
   py_getitem example_entry ''responses_and_scores'' = Inr (JArr example_candidates) \<and>
   map candidate_score example_candidates = [Some 3, Some 5, Some 5] \<and>
   index_pairs (length example_candidates) = [(0, 1), (0, 2), (1, 2)] \<and>
   convert_entry example_entry = Inr [example_pair ''B'' ''m2'', example_pair ''C'' ''m3''] \<and>
   (\<exists>out. convert_entry example_entry = Inr out \<and>
      length out + card {(i, j). i < j \<and> j < length example_candidates \<and>
                           candidate_score (example_candidates ! i)
                             = candidate_score (example_candidates ! j)}
        = length example_candidates choose 2)"
proof -
  have h1: "py_getitem example_entry ''user_input'' = Inr (JStr ''P'')"
    by (simp add: example_entry_def)
  have h2: "py_getitem example_entry ''responses_and_scores'' = Inr (JArr example_candidates)"
    by (simp add: example_entry_def)
  have scores: "map candidate_score example_candidates = [Some 3, Some 5, Some 5]"
    by (simp add: example_candidates_def)
  have h3: "\<forall>c \<in> set example_candidates. candidate_score c \<noteq> None"
    by (simp add: example_candidates_def)
  have ip: "index_pairs (length example_candidates) = [(0, 1), (0, 2), (1, 2)]"
    by (simp add: index_pairs_def example_candidates_def upt_rec)
  note t = expander_pair_count[OF h1 h2 h3]
  have "convert_entry example_entry =
           Inr (map (\<lambda>(i, j). if higher_score (example_candidates ! i) (example_candidates ! j)
                               then comparison_pair (JStr ''P'') (example_candidates ! i)
                                      (example_candidates ! j)
                               else comparison_pair (JStr ''P'') (example_candidates ! j)
                                      (example_candidates ! i))
                  (filter (\<lambda>(i, j). candidate_score (example_candidates ! i)
                                       \<noteq> candidate_score (example_candidates ! j))
                     (index_pairs (length example_candidates))))"
    by (rule t[THEN conjunct1])
  also have "\<dots> = Inr [example_pair ''B'' ''m2'', example_pair ''C'' ''m3'']"
    unfolding ip
    by (simp add: example_candidates_def higher_score_def comparison_pair_def
        candidate_field_def example_pair_def)
  finally have out: "convert_entry example_entry
      = Inr [example_pair ''B'' ''m2'', example_pair ''C'' ''m3'']" .
  have "\<exists>out. convert_entry example_entry = Inr out \<and>
      length out + card {(i, j). i < j \<and> j < length example_candidates \<and>
                           candidate_score (example_candidates ! i)
                             = candidate_score (example_candidates ! j)}
        = length example_candidates choose 2"
    using t[THEN conjunct2, THEN conjunct2, THEN conjunct2, THEN conjunct2] by blast
  with h1 h2 scores ip out show ?thesis by (intro conjI)
qed

text \<open>
  Claim C6. Every pair the expansion emits carries a \<^verbatim>\<open>chosen_score\<close> and a
  \<^verbatim>\<open>rejected_score\<close> with \<^verbatim>\<open>chosen_score > rejected_score\<close>: the comparison made by the
  code yields \<^verbatim>\<open>True\<close>, so the two scores are never equal and the chosen one is never
  the lower one.
\<close>

theorem expander_strict:
  assumes "convert_entry entry = Inr out" and "p \<in> set out"
  shows "\<exists>c r. py_getitem p ''chosen_score'' = Inr c \<and> py_getitem p ''rejected_score'' = Inr r
           \<and> py_gt c r = Inr True \<and> py_lt c r = Inr False \<and> c \<noteq> r"
proof -
  from assms(1) obtain u rs n where
    loop: "for_each (\<lambda>i. for_each (\<lambda>j. pair_body u rs i j) [i + 1 ..< n]) [0 ..< n] = Inr out"
    unfolding convert_entry_def bind_err_eq_Inr by blast
  from for_each_mem[OF loop assms(2)] obtain i ys where
    inner: "for_each (\<lambda>j. pair_body u rs i j) [i + 1 ..< n] = Inr ys" and p: "p \<in> set ys"
    by blast
  from for_each_mem[OF inner p] obtain j zs where
    "pair_body u rs i j = Inr zs" and "p \<in> set zs"
    by blast
  from pair_body_emits[OF this] obtain c r where
    cr: "py_getitem p ''chosen_score'' = Inr c" "py_getitem p ''rejected_score'' = Inr r"
    "py_gt c r = Inr True" by blast
  from cr(3) have "py_lt r c = Inr True" by (simp add: py_gt_def)
  from py_lt_asym[OF this] have lt: "py_lt c r = Inr False" .
  with \<open>py_lt r c = Inr True\<close> have "c \<noteq> r" by auto
  with cr lt show ?thesis by blast
qed


theorem expander_strict_witness:
  "convert_entry example_entry = Inr [example_pair ''B'' ''m2'', example_pair ''C'' ''m3''] \<and>
   (\<exists>c r. py_getitem (example_pair ''B'' ''m2'') ''chosen_score'' = Inr c \<and>
           py_getitem (example_pair ''B'' ''m2'') ''rejected_score'' = Inr r \<and>
           py_gt c r = Inr True \<and> py_lt c r = Inr False \<and> c \<noteq> r)"
proof -
  have h: "example_pair ''B'' ''m2'' \<in> set [example_pair ''B'' ''m2'', example_pair ''C'' ''m3'']"
    by simp
  from expander_strict[OF example_entry_pairs h] example_entry_pairs show ?thesis by blast
qed

text \<open>
  Claim C8, as amended. A record that has a prompt and whose candidates field is present
  with length below 2 (empty included) yields no pair and no error. A record without the
  candidates field does not yield zero pairs: reading the field raises \<^verbatim>\<open>KeyError\<close>.
\<close>

theorem expander_degenerate:
  assumes "py_getitem entry ''user_input'' = Inr u"
  shows "(\<forall>rs n. py_getitem entry ''responses_and_scores'' = Inr rs \<and> py_len rs = Inr n \<and> n < 2
            \<longrightarrow> convert_entry entry = Inr [])
       \<and> (py_getitem entry ''responses_and_scores'' = Inl KeyError
            \<longrightarrow> convert_entry entry = Inl KeyError)"
proof -
  have "convert_entry entry = Inr []"
    if "py_getitem entry ''responses_and_scores'' = Inr rs" "py_len rs = Inr n" "n < 2" for rs n
  proof -
    from that(3) have "n = 0 \<or> n = 1" by arith
    then show ?thesis
      by (auto simp: convert_entry_def assms that(1,2))
  qed
  moreover have "convert_entry entry = Inl KeyError"
    if "py_getitem entry ''responses_and_scores'' = Inl KeyError"
    by (simp add: convert_entry_def assms that)
  ultimately show ?thesis by blast
qed

theorem expander_degenerate_witness:
  "convert_entry (JObj [(''user_input'', JStr ''P''), (''responses_and_scores'', JArr [])]) = Inr [] \<and>
   convert_entry (JObj [(''user_input'', JStr ''P''),
                        (''responses_and_scores'', JArr [example_candidates ! 0])]) = Inr [] \<and>
   convert_entry (JObj [(''user_input'', JStr ''P'')]) = Inl KeyError"
  using
    expander_degenerate[of "JObj [(''user_input'', JStr ''P''), (''responses_and_scores'', JArr [])]"
      "JStr ''P''"]
    expander_degenerate[of "JObj [(''user_input'', JStr ''P''),
                                  (''responses_and_scores'', JArr [example_candidates ! 0])]"
      "JStr ''P''"]
    expander_degenerate[of "JObj [(''user_input'', JStr ''P'')]" "JStr ''P''"]
  by simp

theorem expander_absent_counterexample:
  "map_of [(''user_input'', JStr ''P'')] ''responses_and_scores'' = None \<and>
   convert_entry (JObj [(''user_input'', JStr ''P'')]) \<noteq> Inr []"
  by (simp add: convert_entry_def)


section \<open>Canonicalization: enforce mode\<close>

lemma flip_data_point_swapped:
  assumes cs: "map_of d ''chosen_score'' = Some c" and rs: "map_of d ''rejected_score'' = Some r"
    and lt: "py_lt c r = Inr True"
  shows "\<exists>d'. flip_data_point d = Inr d'
           \<and> map_of d' ''chosen_score'' = Some r \<and> map_of d' ''rejected_score'' = Some c
           \<and> (\<forall>x y. map_of d ''chosen'' = Some x \<and> map_of d ''rejected'' = Some y
                 \<longrightarrow> map_of d' ''chosen'' = Some y \<and> map_of d' ''rejected'' = Some x)
           \<and> (\<forall>k. k \<noteq> ''chosen'' \<and> k \<noteq> ''rejected'' \<and> k \<noteq> ''chosen_score''
                    \<and> k \<noteq> ''rejected_score'' \<longrightarrow> map_of d' k = map_of d k)
           \<and> map fst d' = map fst d"
proof -
  let ?d1 = "AList.update ''rejected_score'' c (AList.update ''chosen_score'' r d)"
  have keys: "''chosen_score'' \<in> fst ` set d" "''rejected_score'' \<in> fst ` set d"
    using cs rs by (auto dest: map_of_SomeD intro: rev_image_eqI)
  have m1: "map_of ?d1 = (map_of d)(''chosen_score'' \<mapsto> r, ''rejected_score'' \<mapsto> c)"
    by (simp add: update_conv')
  have k1: "map fst ?d1 = map fst d"
    using keys by (simp add: update_keys)
  show ?thesis
  proof (cases "map_of d ''chosen''")
    case None
    then have "flip_data_point d = Inr ?d1"
      by (simp add: flip_data_point_def cs rs lt m1)
    then show ?thesis using None k1 by (simp add: m1)
  next
    case (Some x)
    show ?thesis
    proof (cases "map_of d ''rejected''")
      case None
      then have "flip_data_point d = Inr ?d1"
        by (simp add: flip_data_point_def cs rs lt m1 Some)
      then show ?thesis using None k1 by (simp add: m1)
    next
      case y: (Some y)
      let ?d2 = "AList.update ''rejected'' x (AList.update ''chosen'' y ?d1)"
      have f: "flip_data_point d = Inr ?d2"
        by (simp add: flip_data_point_def cs rs lt m1 Some y)
      have keys2: "''chosen'' \<in> fst ` set d" "''rejected'' \<in> fst ` set d"
        using Some y by (auto dest: map_of_SomeD intro: rev_image_eqI)
      have k2: "map fst ?d2 = map fst d"
        using keys keys2 by (simp add: update_keys)
      have m2: "map_of ?d2 = (map_of d)(''chosen_score'' \<mapsto> r, ''rejected_score'' \<mapsto> c,
          ''chosen'' \<mapsto> y, ''rejected'' \<mapsto> x)"
        by (simp add: update_conv')
      show ?thesis using Some y k2 by (simp add: f m2)
    qed
  qed
qed

lemma flip_data_point_unchanged:
  assumes "map_of d ''chosen_score'' = Some c" and "map_of d ''rejected_score'' = Some r"
    and "py_lt c r = Inr False"
  shows "flip_data_point d = Inr d"
  using assms by (simp add: flip_data_point_def)

lemma process_data_point_numeric:
  assumes "map_of d ''chosen_score'' = Some (JNum a)"
    and "map_of d ''rejected_score'' = Some (JNum b)"
  shows "process_data_point (JObj d) =
           (if a < b then bind_err (flip_data_point d) (\<lambda>d'. Inr (JObj d', 1))
            else Inr (JObj d, 0))"
  unfolding process_data_point_def dict_get_def Let_def
  by (simp add: assms)

lemma flip_inverted_pair: "flip_data_point inverted_pair = Inr enforced_pair"
  by (simp add: flip_data_point_def inverted_pair_def enforced_pair_def)

lemma process_inverted_pair:
  "process_data_point (JObj inverted_pair) = Inr (JObj enforced_pair, 1)"
proof -
  have "map_of inverted_pair ''chosen_score'' = Some (JNum 3)"
    "map_of inverted_pair ''rejected_score'' = Some (JNum 5)"
    by (simp_all add: inverted_pair_def)
  from process_data_point_numeric[OF this] show ?thesis
    by (simp add: flip_inverted_pair)
qed

lemma process_ordered_pair:
  "process_data_point (JObj ordered_pair) = Inr (JObj ordered_pair, 0)"
proof -
  have "map_of ordered_pair ''chosen_score'' = Some (JNum 5)"
    "map_of ordered_pair ''rejected_score'' = Some (JNum 3)"
    by (simp_all add: ordered_pair_def)
  from process_data_point_numeric[OF this] show ?thesis
    by simp
qed

lemma enforce_example:
  "enforce [JObj inverted_pair, JObj ordered_pair, JNull]
     = Inr [JObj enforced_pair, JObj ordered_pair, JNull]"
proof -
  have "process_data_point JNull = Inr (JNull, 0)"
    by (simp add: process_data_point_def)
  then show ?thesis
    by (simp add: enforce_def process_inverted_pair process_ordered_pair)
qed


text \<open>
  Claim C4, as amended. For a pair with numeric scores and \<^verbatim>\<open>chosen_score < rejected_score\<close>,
  \<^verbatim>\<open>flip_data_point\<close> (and with it the enforce pass) exchanges the two score fields and the
  \<^verbatim>\<open>chosen\<close> and \<^verbatim>\<open>rejected\<close> texts, so that \<^verbatim>\<open>chosen_score >= rejected_score\<close> holds
  afterwards; every other field, \<^verbatim>\<open>chosen_source\<close> and \<^verbatim>\<open>rejected_source\<close> included, keeps
  its value, and the keys keep their order. A pair that already satisfies
  \<^verbatim>\<open>chosen_score >= rejected_score\<close> is left completely unchanged.
\<close>

theorem flip_data_point_enforces:
  assumes "map_of d ''chosen_score'' = Some (JNum a)"
    and "map_of d ''rejected_score'' = Some (JNum b)"
  shows "(a < b \<longrightarrow>
          (\<exists>d'. flip_data_point d = Inr d' \<and> process_data_point (JObj d) = Inr (JObj d', 1)
             \<and> map_of d' ''chosen_score'' = Some (JNum b)
             \<and> map_of d' ''rejected_score'' = Some (JNum a) \<and> a \<le> b
             \<and> (\<forall>x y. map_of d ''chosen'' = Some x \<and> map_of d ''rejected'' = Some y
                   \<longrightarrow> map_of d' ''chosen'' = Some y \<and> map_of d' ''rejected'' = Some x)
             \<and> (\<forall>k. k \<noteq> ''chosen'' \<and> k \<noteq> ''rejected'' \<and> k \<noteq> ''chosen_score''
                      \<and> k \<noteq> ''rejected_score'' \<longrightarrow> map_of d' k = map_of d k)
             \<and> map fst d' = map fst d))
       \<and> (\<not> a < b \<longrightarrow>
            flip_data_point d = Inr d \<and> process_data_point (JObj d) = Inr (JObj d, 0))"
proof (cases "a < b")
  case True
  then have lt: "py_lt (JNum a) (JNum b) = Inr True" by simp
  from flip_data_point_swapped[OF assms lt] obtain d' where
    f: "flip_data_point d = Inr d'"
    and rest: "map_of d' ''chosen_score'' = Some (JNum b) \<and> map_of d' ''rejected_score'' = Some (JNum a)
      \<and> (\<forall>x y. map_of d ''chosen'' = Some x \<and> map_of d ''rejected'' = Some y
                   \<longrightarrow> map_of d' ''chosen'' = Some y \<and> map_of d' ''rejected'' = Some x)
      \<and> (\<forall>k. k \<noteq> ''chosen'' \<and> k \<noteq> ''rejected'' \<and> k \<noteq> ''chosen_score''
                      \<and> k \<noteq> ''rejected_score'' \<longrightarrow> map_of d' k = map_of d k)
      \<and> map fst d' = map fst d"
    by (elim exE conjE) (rule that, assumption, intro conjI, assumption+)
  have p: "process_data_point (JObj d) = Inr (JObj d', 1)"
    by (simp add: process_data_point_numeric[OF assms] True f)
  from True have le: "a \<le> b" by simp
  have "\<exists>d'. flip_data_point d = Inr d' \<and> process_data_point (JObj d) = Inr (JObj d', 1)
             \<and> map_of d' ''chosen_score'' = Some (JNum b)
             \<and> map_of d' ''rejected_score'' = Some (JNum a) \<and> a \<le> b
             \<and> (\<forall>x y. map_of d ''chosen'' = Some x \<and> map_of d ''rejected'' = Some y
                   \<longrightarrow> map_of d' ''chosen'' = Some y \<and> map_of d' ''rejected'' = Some x)
             \<and> (\<forall>k. k \<noteq> ''chosen'' \<and> k \<noteq> ''rejected'' \<and> k \<noteq> ''chosen_score''
                      \<and> k \<noteq> ''rejected_score'' \<longrightarrow> map_of d' k = map_of d k)
             \<and> map fst d' = map fst d"
    apply (rule exI[of _ d'])
    apply (intro conjI)
           apply (rule f)
          apply (rule p)
         apply (rule rest[THEN conjunct1])
        apply (rule rest[THEN conjunct2, THEN conjunct1])
       apply (rule le)
      apply (rule rest[THEN conjunct2, THEN conjunct2, THEN conjunct1])
     apply (rule rest[THEN conjunct2, THEN conjunct2, THEN conjunct2, THEN conjunct1])
    apply (rule rest[THEN conjunct2, THEN conjunct2, THEN conjunct2, THEN conjunct2])
    done
  with True show ?thesis by (simp only: simp_thms)
next
  case False
  then have lt: "py_lt (JNum a) (JNum b) = Inr False" by simp
  have p: "process_data_point (JObj d) = Inr (JObj d, 0)"
    by (simp add: process_data_point_numeric[OF assms] False)
  from False p flip_data_point_unchanged[OF assms lt] show ?thesis by (simp only: simp_thms)
qed


theorem flip_data_point_enforces_witness:
  "(\<exists>d'. flip_data_point inverted_pair = Inr d'
          \<and> process_data_point (JObj inverted_pair) = Inr (JObj d', 1)
          \<and> map_of d' ''chosen_score'' = Some (JNum 5)
          \<and> map_of d' ''rejected_score'' = Some (JNum 3)
          \<and> map fst d' = map fst inverted_pair)
   \<and> flip_data_point ordered_pair = Inr ordered_pair"
proof -
  have h1: "map_of inverted_pair ''chosen_score'' = Some (JNum 3)"
    and h2: "map_of inverted_pair ''rejected_score'' = Some (JNum 5)"
    by (simp_all add: inverted_pair_def)
  have h3: "map_of ordered_pair ''chosen_score'' = Some (JNum 5)"
    and h4: "map_of ordered_pair ''rejected_score'' = Some (JNum 3)"
    by (simp_all add: ordered_pair_def)
  have "\<exists>d'. flip_data_point inverted_pair = Inr d'
          \<and> process_data_point (JObj inverted_pair) = Inr (JObj d', 1)
          \<and> map_of d' ''chosen_score'' = Some (JNum 5)
          \<and> map_of d' ''rejected_score'' = Some (JNum 3) \<and> (3::real) \<le> 5
          \<and> (\<forall>x y. map_of inverted_pair ''chosen'' = Some x \<and> map_of inverted_pair ''rejected'' = Some y
                \<longrightarrow> map_of d' ''chosen'' = Some y \<and> map_of d' ''rejected'' = Some x)
          \<and> (\<forall>k. k \<noteq> ''chosen'' \<and> k \<noteq> ''rejected'' \<and> k \<noteq> ''chosen_score''
                   \<and> k \<noteq> ''rejected_score'' \<longrightarrow> map_of d' k = map_of inverted_pair k)
          \<and> map fst d' = map fst inverted_pair"
    by (rule flip_data_point_enforces[OF h1 h2, THEN conjunct1, THEN mp]) simp
  then obtain d' where
    "flip_data_point inverted_pair = Inr d'"
    "process_data_point (JObj inverted_pair) = Inr (JObj d', 1)"
    "map_of d' ''chosen_score'' = Some (JNum 5)"
    "map_of d' ''rejected_score'' = Some (JNum 3)"
    "map fst d' = map fst inverted_pair"
    by (elim exE conjE)
  then have first: "\<exists>d'. flip_data_point inverted_pair = Inr d'
          \<and> process_data_point (JObj inverted_pair) = Inr (JObj d', 1)
          \<and> map_of d' ''chosen_score'' = Some (JNum 5)
          \<and> map_of d' ''rejected_score'' = Some (JNum 3)
          \<and> map fst d' = map fst inverted_pair"
    by (intro exI[of _ d'] conjI)
  have "flip_data_point ordered_pair = Inr ordered_pair
          \<and> process_data_point (JObj ordered_pair) = Inr (JObj ordered_pair, 0)"
    by (rule flip_data_point_enforces[OF h3 h4, THEN conjunct2, THEN mp]) simp
  then have "flip_data_point ordered_pair = Inr ordered_pair" by (rule conjunct1)
  with first show ?thesis by (rule conjI)
qed

theorem flip_data_point_source_counterexample:
  "flip_data_point inverted_pair = Inr enforced_pair
   \<and> map_of inverted_pair ''rejected_source'' = Some (JStr ''m2'')
   \<and> map_of enforced_pair ''chosen_source'' = Some (JStr ''m1'')
   \<and> map_of enforced_pair ''chosen_source'' \<noteq> map_of inverted_pair ''rejected_source''"
  by (simp add: flip_inverted_pair) (simp add: inverted_pair_def enforced_pair_def)

lemma dict_get_not_null:
  "dict_get d k JNull \<noteq> JNull \<Longrightarrow> map_of d k = Some (dict_get d k JNull)"
  by (cases "map_of d k") (simp_all add: dict_get_def)

lemma process_data_point_dict:
  "process_data_point (JObj d) =
     (if dict_get d ''chosen_score'' JNull = JNull \<or> dict_get d ''rejected_score'' JNull = JNull
      then Inr (JObj d, 0)
      else bind_err (py_lt (dict_get d ''chosen_score'' JNull) (dict_get d ''rejected_score'' JNull))
        (\<lambda>lt. if lt then bind_err (flip_data_point d) (\<lambda>d'. Inr (JObj d', 1))
              else Inr (JObj d, 0)))"
  unfolding process_data_point_def Let_def by simp

lemma flip_data_point_scores:
  assumes "map_of d ''chosen_score'' = Some c" and "map_of d ''rejected_score'' = Some r"
    and "py_lt c r = Inr True"
  shows "\<exists>d'. flip_data_point d = Inr d'
           \<and> map_of d' ''chosen_score'' = Some r \<and> map_of d' ''rejected_score'' = Some c"
  using flip_data_point_swapped[OF assms]
  apply (elim exE conjE)
  subgoal for d' by (rule exI[of _ d']) (simp only: simp_thms)
  done

lemma process_data_point_stable:
  assumes "process_data_point p = Inr (p', c)"
  shows "process_data_point p' = Inr (p', 0) \<and> scores_ordered p'"
proof (cases p)
  case (JObj d)
  let ?c = "dict_get d ''chosen_score'' JNull"
  let ?r = "dict_get d ''rejected_score'' JNull"
  show ?thesis
  proof (cases "?c = JNull \<or> ?r = JNull")
    case True
    with assms JObj have p': "p' = JObj d"
      by (simp add: process_data_point_dict)
    have "process_data_point (JObj d) = Inr (JObj d, 0)"
      using True by (simp add: process_data_point_dict)
    moreover have "scores_ordered (JObj d)"
      using True by (auto simp: scores_ordered_def dict_get_def)
    ultimately show ?thesis by (simp add: p')
  next
    case False
    then have cs: "map_of d ''chosen_score'' = Some ?c" and rs: "map_of d ''rejected_score'' = Some ?r"
      by (simp_all add: dict_get_not_null)
    from assms JObj False have
      "bind_err (py_lt ?c ?r) (\<lambda>lt. if lt then bind_err (flip_data_point d) (\<lambda>d'. Inr (JObj d', 1))
                  else Inr (JObj d, 0)) = Inr (p', c)"
      by (simp add: process_data_point_dict)
    then obtain lt where lt: "py_lt ?c ?r = Inr lt"
      and rest: "(if lt then bind_err (flip_data_point d) (\<lambda>d'. Inr (JObj d', 1))
                  else Inr (JObj d, 0)) = Inr (p', c)"
      unfolding bind_err_eq_Inr by blast
    show ?thesis
    proof (cases lt)
      case True
      with lt have ltT: "py_lt ?c ?r = Inr True" by simp
      from flip_data_point_scores[OF cs rs ltT] obtain d' where
        f: "flip_data_point d = Inr d'" and cs': "map_of d' ''chosen_score'' = Some ?r"
        and rs': "map_of d' ''rejected_score'' = Some ?c"
        by blast
      from rest True f have p': "p' = JObj d'" by simp
      have rev_lt: "py_lt ?r ?c = Inr False" by (rule py_lt_asym[OF ltT])
      have g: "dict_get d' ''chosen_score'' JNull = ?r" "dict_get d' ''rejected_score'' JNull = ?c"
        by (simp_all add: dict_get_def[of d'] cs' rs')
      have "process_data_point (JObj d') = Inr (JObj d', 0)"
        using False rev_lt by (simp add: process_data_point_dict[of d'] g)
      moreover have "scores_ordered (JObj d')"
        using rev_lt by (simp add: scores_ordered_def cs' rs')
      ultimately show ?thesis by (simp add: p')
    next
      case F: False
      with rest have p': "p' = JObj d" by simp
      from F lt have ltF: "py_lt ?c ?r = Inr False" by simp
      have "process_data_point (JObj d) = Inr (JObj d, 0)"
        using False ltF by (simp add: process_data_point_dict)
      moreover have "scores_ordered (JObj d)"
        using ltF by (simp add: scores_ordered_def cs rs)
      ultimately show ?thesis by (simp add: p')
    qed
  qed
qed (use assms in \<open>auto simp: process_data_point_def scores_ordered_def\<close>)

lemma process_data_points_stable:
  "process_data_points xs = Inr (ys, n) \<Longrightarrow>
     process_data_points ys = Inr (ys, 0) \<and> (\<forall>p \<in> set ys. scores_ordered p)"
proof (induction xs arbitrary: ys n)
  case Nil
  then show ?case by simp
next
  case (Cons x xs)
  from Cons.prems obtain p c ps m where
    x: "process_data_point x = Inr (p, c)" and xs: "process_data_points xs = Inr (ps, m)"
    and ys: "ys = p # ps"
    by (auto simp: bind_err_eq_Inr)
  from process_data_point_stable[OF x] Cons.IH[OF xs] show ?case
    by (simp add: ys)
qed

lemma enforce_eq_Inr: "enforce x = Inr y \<longleftrightarrow> (\<exists>n. process_data_points x = Inr (y, n))"
  by (auto simp: enforce_def bind_err_eq_Inr)


text \<open>
  Claim C5. Enforce mode is idempotent: running the pass on its own result gives that
  result again (also when the pass raises, since nothing is then passed on). After one
  pass, every pair that has both scores has \<^verbatim>\<open>chosen_score >= rejected_score\<close>: the
  comparison \<^verbatim>\<open>chosen_score < rejected_score\<close> is false for it, which for numeric scores
  says that the chosen score is at least the rejected one.
\<close>

theorem enforce_idempotent:
  "bind_err (enforce x) enforce = enforce x
   \<and> (\<forall>y d c r. enforce x = Inr y \<and> JObj d \<in> set y
          \<and> map_of d ''chosen_score'' = Some c \<and> map_of d ''rejected_score'' = Some r
          \<and> c \<noteq> JNull \<and> r \<noteq> JNull \<longrightarrow> py_lt c r = Inr False)
   \<and> (\<forall>y d a b. enforce x = Inr y \<and> JObj d \<in> set y
          \<and> map_of d ''chosen_score'' = Some (JNum a) \<and> map_of d ''rejected_score'' = Some (JNum b)
          \<longrightarrow> b \<le> a)"
proof -
  have idem: "bind_err (enforce x) enforce = enforce x"
  proof (cases "enforce x")
    case (Inl e)
    then show ?thesis by simp
  next
    case (Inr y)
    then obtain n where "process_data_points x = Inr (y, n)" by (auto simp: enforce_eq_Inr)
    from process_data_points_stable[OF this] have "enforce y = Inr y"
      by (simp add: enforce_eq_Inr)
    with Inr show ?thesis by simp
  qed
  have ordered: "py_lt c r = Inr False"
    if "enforce x = Inr y" "JObj d \<in> set y" "map_of d ''chosen_score'' = Some c"
      "map_of d ''rejected_score'' = Some r" "c \<noteq> JNull" "r \<noteq> JNull" for y d c r
  proof -
    from that(1) obtain n where "process_data_points x = Inr (y, n)" by (auto simp: enforce_eq_Inr)
    from process_data_points_stable[OF this] that(2) have "scores_ordered (JObj d)" by blast
    with that(3-6) show ?thesis unfolding scores_ordered_def by blast
  qed
  have numeric: "b \<le> a"
    if "enforce x = Inr y" "JObj d \<in> set y" "map_of d ''chosen_score'' = Some (JNum a)"
      "map_of d ''rejected_score'' = Some (JNum b)" for y d a b
  proof -
    from ordered[OF that] have "py_lt (JNum a) (JNum b) = Inr False" by simp
    then show ?thesis by simp
  qed
  from idem ordered numeric show ?thesis by blast
qed


theorem enforce_idempotent_witness:
  "enforce [JObj inverted_pair, JObj ordered_pair, JNull]
     = Inr [JObj enforced_pair, JObj ordered_pair, JNull]
   \<and> bind_err (enforce [JObj inverted_pair, JObj ordered_pair, JNull]) enforce
     = enforce [JObj inverted_pair, JObj ordered_pair, JNull]
   \<and> map_of enforced_pair ''chosen_score'' = Some (JNum 5)
   \<and> map_of enforced_pair ''rejected_score'' = Some (JNum 3)
   \<and> (3::real) \<le> 5"
proof -
  let ?x = "[JObj inverted_pair, JObj ordered_pair, JNull]"
  let ?y = "[JObj enforced_pair, JObj ordered_pair, JNull]"
  have c: "map_of enforced_pair ''chosen_score'' = Some (JNum 5)"
    and r: "map_of enforced_pair ''rejected_score'' = Some (JNum 3)"
    by (simp_all add: enforced_pair_def)
  have idem: "bind_err (enforce ?x) enforce = enforce ?x"
    by (rule enforce_idempotent[of ?x, THEN conjunct1])
  have mem: "JObj enforced_pair \<in> set ?y" by simp
  have "(3::real) \<le> 5"
    by (rule enforce_idempotent[of ?x, THEN conjunct2, THEN conjunct2, rule_format,
          of ?y enforced_pair 5 3])
      (intro conjI enforce_example mem c r)
  with enforce_example idem c r show ?thesis by (intro conjI)
qed


section \<open>Noise injection\<close>


lemma update_twice_frame:
  assumes "map_of d ''chosen'' = Some c" and "map_of d ''rejected'' = Some r"
  shows "map_of (AList.update ''rejected'' c (AList.update ''chosen'' r d)) ''chosen'' = Some r"
    and "map_of (AList.update ''rejected'' c (AList.update ''chosen'' r d)) ''rejected'' = Some c"
    and "k \<noteq> ''chosen'' \<Longrightarrow> k \<noteq> ''rejected'' \<Longrightarrow>
           map_of (AList.update ''rejected'' c (AList.update ''chosen'' r d)) k = map_of d k"
    and "map fst (AList.update ''rejected'' c (AList.update ''chosen'' r d)) = map fst d"
proof -
  have keys: "''chosen'' \<in> fst ` set d" "''rejected'' \<in> fst ` set d"
    using assms by (auto dest: map_of_SomeD intro: rev_image_eqI)
  show "map_of (AList.update ''rejected'' c (AList.update ''chosen'' r d)) ''chosen'' = Some r"
    by (simp add: update_conv')
  show "map_of (AList.update ''rejected'' c (AList.update ''chosen'' r d)) ''rejected'' = Some c"
    by (simp add: update_conv')
  show "k \<noteq> ''chosen'' \<Longrightarrow> k \<noteq> ''rejected'' \<Longrightarrow>
           map_of (AList.update ''rejected'' c (AList.update ''chosen'' r d)) k = map_of d k"
    by (simp add: update_conv')
  show "map fst (AList.update ''rejected'' c (AList.update ''chosen'' r d)) = map fst d"
    using keys by (simp add: update_keys)
qed

lemma flip_loop_items:
  "flip_loop rand flip_ratio data g = Inr (flipped_data, flip_count, g') \<Longrightarrow>
     length flipped_data = length data \<and>
     (\<forall>i < length data.
        flip_step (fst (rand (((\<lambda>g. snd (rand g)) ^^ i) g)) < flip_ratio) (data ! i) (flipped_data ! i))"
proof (induction data arbitrary: g flipped_data flip_count g')
  case Nil
  then show ?case by simp
next
  case (Cons item rest)
  let ?flip = "fst (rand g) < flip_ratio"
  from Cons.prems obtain new_item c out n where
    step: "(if ?flip then
           (case map_of item ''rejected'' of
              None \<Rightarrow> Inl KeyError
            | Some rejected \<Rightarrow>
                (case map_of item ''chosen'' of
                   None \<Rightarrow> Inl KeyError
                 | Some chosen \<Rightarrow>
                     Inr (AList.update ''rejected'' chosen
                           (AList.update ''chosen'' rejected item), 1::nat)))
         else Inr (item, 0)) = Inr (new_item, c)"
    and loop: "flip_loop rand flip_ratio rest (snd (rand g)) = Inr (out, n, g')"
    and fd: "flipped_data = new_item # out"
    by (auto simp: bind_err_eq_Inr Let_def)
  have head: "flip_step ?flip item new_item"
  proof (cases ?flip)
    case True
    with step obtain r ch where r: "map_of item ''rejected'' = Some r"
      and ch: "map_of item ''chosen'' = Some ch"
      and ni: "new_item = AList.update ''rejected'' ch (AList.update ''chosen'' r item)"
      by (auto split: option.splits)
    from update_twice_frame[OF ch r] True show ?thesis
      by (simp add: flip_step_def ni ch r)
  next
    case False
    with step show ?thesis by (simp add: flip_step_def)
  qed
  from Cons.IH[OF loop] have len: "length out = length rest"
    and tail: "\<And>i. i < length rest \<Longrightarrow>
        flip_step (fst (rand (((\<lambda>g. snd (rand g)) ^^ i) (snd (rand g)))) < flip_ratio) (rest ! i) (out ! i)"
    by simp_all
  have "flip_step (fst (rand (((\<lambda>g. snd (rand g)) ^^ i) g)) < flip_ratio)
          ((item # rest) ! i) (flipped_data ! i)"
    if "i < length (item # rest)" for i
  proof (cases i)
    case 0
    with head show ?thesis by (simp add: fd)
  next
    case (Suc j)
    with that have "j < length rest" by simp
    from tail[OF this] show ?thesis
      by (simp add: Suc fd funpow_swap1[of "\<lambda>g. snd (rand g)" j g])
  qed
  then show ?case by (simp add: fd len)
qed

lemma flip_example:
  "flip_chosen_rejected (\<lambda>g. (real g / 2, Suc g)) nat 0 [ordered_pair, ordered_pair] (1 / 4) None
     = Inr ([noisy_pair, ordered_pair], 2)"
  by (simp add: flip_chosen_rejected_def ordered_pair_def noisy_pair_def)


text \<open>
  Claim C10. In the output of \<^verbatim>\<open>flip_chosen_rejected\<close> every item stands at the place of its
  input item. Where the draw of \<^verbatim>\<open>random.random()\<close> for the item is below \<^verbatim>\<open>flip_ratio\<close>,
  the values of \<^verbatim>\<open>chosen\<close> and \<^verbatim>\<open>rejected\<close> are exchanged; otherwise the item is unchanged.
  In both cases every other field (\<^verbatim>\<open>chosen_score\<close>, \<^verbatim>\<open>rejected_score\<close>, \<^verbatim>\<open>chosen_source\<close>,
  \<^verbatim>\<open>rejected_source\<close>, \<^verbatim>\<open>conversations\<close>, ...) has the value it had and the keys keep their
  order, so after a flip \<^verbatim>\<open>chosen_score\<close> is the score of the text now under \<^verbatim>\<open>rejected\<close>.
\<close>

theorem flip_chosen_rejected_frame:
  assumes "flip_chosen_rejected rand reseed g data flip_ratio seed = Inr (flipped_data, g')"
  shows "length flipped_data = length data \<and>
     (\<forall>i < length data.
        (if fst (rand (((\<lambda>g. snd (rand g)) ^^ i) (case seed of None \<Rightarrow> g | Some s \<Rightarrow> reseed s)))
              < flip_ratio
         then map_of (data ! i) ''chosen'' \<noteq> None \<and> map_of (data ! i) ''rejected'' \<noteq> None
            \<and> map_of (flipped_data ! i) ''chosen'' = map_of (data ! i) ''rejected''
            \<and> map_of (flipped_data ! i) ''rejected'' = map_of (data ! i) ''chosen''
         else flipped_data ! i = data ! i)
        \<and> (\<forall>k. k \<noteq> ''chosen'' \<and> k \<noteq> ''rejected''
               \<longrightarrow> map_of (flipped_data ! i) k = map_of (data ! i) k)
        \<and> map fst (flipped_data ! i) = map fst (data ! i))"
proof -
  let ?g = "case seed of None \<Rightarrow> g | Some s \<Rightarrow> reseed s"
  from assms obtain n where "flip_loop rand flip_ratio data ?g = Inr (flipped_data, n, g')"
    by (auto simp: flip_chosen_rejected_def bind_err_eq_Inr Let_def split: if_splits)
  from flip_loop_items[OF this] show ?thesis
    unfolding flip_step_def .
qed

theorem flip_chosen_rejected_frame_witness:
  "flip_chosen_rejected (\<lambda>g. (real g / 2, Suc g)) nat 0 [ordered_pair, ordered_pair] (1 / 4) None
     = Inr ([noisy_pair, ordered_pair], 2)
   \<and> map_of noisy_pair ''chosen'' = map_of ordered_pair ''rejected''
   \<and> map_of noisy_pair ''rejected'' = map_of ordered_pair ''chosen''
   \<and> map_of noisy_pair ''chosen_score'' = map_of ordered_pair ''chosen_score''
   \<and> map_of noisy_pair ''rejected_score'' = map_of ordered_pair ''rejected_score''
   \<and> map_of noisy_pair ''chosen_source'' = map_of ordered_pair ''chosen_source''
   \<and> map fst noisy_pair = map fst ordered_pair"
proof -
  have i: "0 < length [ordered_pair, ordered_pair]" by simp
  note t = flip_chosen_rejected_frame[OF flip_example, THEN conjunct2, rule_format, OF i]
  from t have sw: "map_of noisy_pair ''chosen'' = map_of ordered_pair ''rejected''
      \<and> map_of noisy_pair ''rejected'' = map_of ordered_pair ''chosen''"
    by simp
  from t have fr: "\<And>k. k \<noteq> ''chosen'' \<and> k \<noteq> ''rejected''
      \<Longrightarrow> map_of noisy_pair k = map_of ordered_pair k"
    by simp
  from t have ks: "map fst noisy_pair = map fst ordered_pair"
    by simp
  from sw fr[of "''chosen_score''"] fr[of "''rejected_score''"] fr[of "''chosen_source''"] ks
    flip_example
  show ?thesis by simp
qed


section \<open>The adapters to the single-output format\<close>

















section \<open>Rebalancing\<close>

lemma counts_as_less_cases:
  "counts_as_less item = Inr b \<Longrightarrow> is_less item = b"
  "counts_as_less item = Inr b \<Longrightarrow> is_greater_equal item = (is_dict item \<and> \<not> b)"
  by (simp_all add: is_less_def is_greater_equal_def)

lemma classify_step:
  "classify (item # rest) (l, ge) =
     bind_err (counts_as_less item) (\<lambda>b.
       classify rest (if b then l @ [item] else l,
                      if is_dict item \<and> \<not> b then ge @ [item] else ge))"
proof (cases item)
  case (JObj d)
  show ?thesis
  proof (cases "map_of d ''chosen_score''")
    case None
    then show ?thesis by (simp add: JObj counts_as_less_def)
  next
    case c: (Some c)
    show ?thesis
    proof (cases "map_of d ''rejected_score''")
      case None
      then show ?thesis by (simp add: JObj counts_as_less_def c)
    next
      case (Some r)
      show ?thesis
      proof (cases "py_lt c r")
        case (Inl e)
        then show ?thesis by (simp add: JObj counts_as_less_def c Some)
      next
        case (Inr b)
        then show ?thesis by (cases b) (simp_all add: JObj counts_as_less_def c Some)
      qed
    qed
  qed
qed (simp_all add: counts_as_less_def)

lemma classify_filter:
  assumes "\<forall>item \<in> set data. \<exists>b. counts_as_less item = Inr b"
  shows "classify data (l, ge) = Inr (l @ filter is_less data, ge @ filter is_greater_equal data)"
  using assms
proof (induction data arbitrary: l ge)
  case Nil
  then show ?case by simp
next
  case (Cons item rest)
  from Cons.prems obtain b where b: "counts_as_less item = Inr b" by auto
  from Cons.prems have rest: "\<forall>item \<in> set rest. \<exists>b. counts_as_less item = Inr b" by simp
  show ?case
    unfolding classify_step
    by (simp add: b Cons.IH[OF rest] counts_as_less_cases[OF b] del: classify.simps)
qed

lemma classify_filter_start:
  assumes "\<forall>item \<in> set data. \<exists>b. counts_as_less item = Inr b"
  shows "classify data ([], []) = Inr (filter is_less data, filter is_greater_equal data)"
  using classify_filter[OF assms, of "[]" "[]"] by simp

lemma all_dicts_partition:
  assumes "\<forall>item \<in> set data. is_dict item"
    and "\<forall>item \<in> set data. \<exists>b. counts_as_less item = Inr b"
    and "filter is_less data = []"
  shows "filter is_greater_equal data = data"
proof -
  have "is_greater_equal item" if "item \<in> set data" for item
  proof -
    from that assms(2) obtain b where b: "counts_as_less item = Inr b" by auto
    from that assms(3) have "\<not> is_less item" by (auto simp: filter_empty_conv)
    with b have "\<not> b" by (simp add: counts_as_less_cases)
    with b that assms(1) show ?thesis by (simp add: counts_as_less_cases)
  qed
  then show ?thesis by (simp add: filter_id_conv)
qed


lemma example_pairs_counts:
  "counts_as_less (JObj inverted_pair) = Inr True"
  "counts_as_less (JObj ordered_pair) = Inr False"
  "counts_as_less (JObj unscored_pair) = Inr False"
  by (simp_all add: counts_as_less_def inverted_pair_def ordered_pair_def unscored_pair_def)

lemma example_pairs_classes:
  "is_less (JObj inverted_pair)" "\<not> is_greater_equal (JObj inverted_pair)"
  "\<not> is_less (JObj ordered_pair)" "is_greater_equal (JObj ordered_pair)"
  "\<not> is_less (JObj unscored_pair)" "is_greater_equal (JObj unscored_pair)"
  by (simp_all add: is_less_def is_greater_equal_def example_pairs_counts)

text \<open>
  Claim C2, as amended. Let no comparison of scores in the input raise. When the class
  of items with \<^verbatim>\<open>chosen_score < rejected_score\<close> is not empty, the output for
  \<^verbatim>\<open>target_ratio = 0\<close> is exactly the other class (the dicts on which the predicate is
  false or a score is missing) and the output for \<^verbatim>\<open>target_ratio = 1\<close> is exactly that
  class, both in input order. When that class is empty the input list is returned as it
  is, whatever the ratio, so the output for \<^verbatim>\<open>target_ratio = 1\<close> is then the whole input
  and not the empty list; if moreover every item is a dict, the input is the other class.
\<close>

theorem downsample_extreme_ratios:
  assumes "\<forall>item \<in> set data. \<exists>b. counts_as_less item = Inr b"
  shows "(filter is_less data \<noteq> [] \<longrightarrow>
            downsample_dataset fl shuffle g data 0 = Inr (filter is_greater_equal data, g)
          \<and> downsample_dataset fl shuffle g data 1 = Inr (filter is_less data, g))
       \<and> (filter is_less data = [] \<longrightarrow>
            downsample_dataset fl shuffle g data target_ratio = Inr (data, g))
       \<and> (filter is_less data = [] \<and> (\<forall>item \<in> set data. is_dict item) \<longrightarrow>
            filter is_greater_equal data = data)"
proof -
  note c = classify_filter_start[OF assms]
  have "downsample_dataset fl shuffle g data 0 = Inr (filter is_greater_equal data, g)
          \<and> downsample_dataset fl shuffle g data 1 = Inr (filter is_less data, g)"
    if "filter is_less data \<noteq> []"
    using that by (simp add: downsample_dataset_def c)
  moreover have "downsample_dataset fl shuffle g data target_ratio = Inr (data, g)"
    if "filter is_less data = []"
    using that by (simp add: downsample_dataset_def c)
  moreover have "filter is_greater_equal data = data"
    if "filter is_less data = [] \<and> (\<forall>item \<in> set data. is_dict item)"
    using that all_dicts_partition[OF _ assms] by simp
  ultimately show ?thesis by blast
qed


theorem downsample_extreme_ratios_witness:
  "filter is_less [JObj inverted_pair, JObj ordered_pair] = [JObj inverted_pair]
   \<and> downsample_dataset (\<lambda>x. x) no_shuffle () [JObj inverted_pair, JObj ordered_pair] 0
       = Inr ([JObj ordered_pair], ())
   \<and> downsample_dataset (\<lambda>x. x) no_shuffle () [JObj inverted_pair, JObj ordered_pair] 1
       = Inr ([JObj inverted_pair], ())
   \<and> filter is_less [JObj ordered_pair] = []
   \<and> downsample_dataset (\<lambda>x. x) no_shuffle () [JObj ordered_pair] (1 / 2)
       = Inr ([JObj ordered_pair], ())"
proof -
  have ok2: "\<forall>item \<in> set [JObj inverted_pair, JObj ordered_pair]. \<exists>b. counts_as_less item = Inr b"
    by (auto simp: example_pairs_counts)
  have ok1: "\<forall>item \<in> set [JObj ordered_pair]. \<exists>b. counts_as_less item = Inr b"
    by (auto simp: example_pairs_counts)
  have l2: "filter is_less [JObj inverted_pair, JObj ordered_pair] = [JObj inverted_pair]"
    and g2: "filter is_greater_equal [JObj inverted_pair, JObj ordered_pair] = [JObj ordered_pair]"
    and l1: "filter is_less [JObj ordered_pair] = []"
    by (simp_all add: example_pairs_classes)
  have "downsample_dataset (\<lambda>x. x) no_shuffle () [JObj inverted_pair, JObj ordered_pair] 0
          = Inr (filter is_greater_equal [JObj inverted_pair, JObj ordered_pair], ())
      \<and> downsample_dataset (\<lambda>x. x) no_shuffle () [JObj inverted_pair, JObj ordered_pair] 1
          = Inr (filter is_less [JObj inverted_pair, JObj ordered_pair], ())"
    by (rule downsample_extreme_ratios[OF ok2, THEN conjunct1, THEN mp]) (simp only: l2, simp)
  then have two: "downsample_dataset (\<lambda>x. x) no_shuffle () [JObj inverted_pair, JObj ordered_pair] 0
          = Inr ([JObj ordered_pair], ())
      \<and> downsample_dataset (\<lambda>x. x) no_shuffle () [JObj inverted_pair, JObj ordered_pair] 1
          = Inr ([JObj inverted_pair], ())"
    by (simp only: l2 g2)
  have one: "downsample_dataset (\<lambda>x. x) no_shuffle () [JObj ordered_pair] (1 / 2)
          = Inr ([JObj ordered_pair], ())"
    by (rule downsample_extreme_ratios[OF ok1, THEN conjunct2, THEN conjunct1, THEN mp]) (rule l1)
  from l2 two l1 one show ?thesis by (intro conjI) (elim conjE, assumption)+
qed

theorem downsample_empty_true_class_counterexample:
  "filter is_less [JObj ordered_pair] = []
   \<and> downsample_dataset (\<lambda>x. x) no_shuffle () [JObj ordered_pair] 1 = Inr ([JObj ordered_pair], ())
   \<and> downsample_dataset (\<lambda>x. x) no_shuffle () [JObj ordered_pair] 1 \<noteq> Inr ([], ())"
proof -
  have ok: "\<forall>item \<in> set [JObj ordered_pair]. \<exists>b. counts_as_less item = Inr b"
    by (auto simp: example_pairs_counts)
  have l: "filter is_less [JObj ordered_pair] = []"
    by (simp add: example_pairs_classes)
  have "downsample_dataset (\<lambda>x. x) no_shuffle () [JObj ordered_pair] 1 = Inr ([JObj ordered_pair], ())"
    unfolding downsample_dataset_def classify_filter_start[OF ok] l by simp
  with l show ?thesis by simp
qed

lemma final_less_filter:
  assumes "\<forall>item \<in> set xs. \<exists>b. counts_as_less item = Inr b"
  shows "final_less xs = Inr (length (filter is_less xs))"
  using assms
proof (induction xs)
  case Nil
  then show ?case by simp
next
  case (Cons x xs)
  from Cons.prems obtain b where b: "counts_as_less x = Inr b" by auto
  from Cons.prems have "final_less xs = Inr (length (filter is_less xs))"
    by (intro Cons.IH) simp
  then show ?case by (simp add: b counts_as_less_cases(1)[OF b])
qed

lemma set_slice_to: "set (slice_to xs n) \<subseteq> set xs"
  by (auto simp: slice_to_def dest: in_set_takeD)

lemma slice_to_nonneg: "0 \<le> n \<Longrightarrow> slice_to xs n = take (nat n) xs"
  by (simp add: slice_to_def)

lemma slice_to_all: "slice_to xs (int (length xs)) = xs"
  by (simp add: slice_to_def)

lemma downsample_dataset_general_branch:
  assumes "\<forall>item \<in> set data. \<exists>b. counts_as_less item = Inr b"
    and "filter is_less data \<noteq> []" and "0 < r" and "r < 1"
    and "sample_counts fl r (length (filter is_less data))
           (length (filter is_greater_equal data)) = Inr (L, G)"
  shows "downsample_dataset fl shuffle g data r =
     (let s1 = shuffle g (filter is_less data);
          s2 = shuffle (snd s1) (filter is_greater_equal data);
          s3 = shuffle (snd s2) (slice_to (fst s1) L @ slice_to (fst s2) G)
      in bind_err (final_less (fst s3)) (\<lambda>n. Inr (fst s3, snd s3)))"
  using assms(2-4)
  by (simp add: downsample_dataset_def classify_filter_start[OF assms(1)] assms(5) Let_def
      case_prod_beta)

lemma downsample_dataset_general_result:
  assumes ok: "\<forall>item \<in> set data. \<exists>b. counts_as_less item = Inr b"
    and perm: "\<forall>g xs. mset (fst (shuffle g xs)) = mset xs"
    and ne: "filter is_less data \<noteq> []" and r: "0 < r" "r < 1"
    and counts: "sample_counts fl r (length (filter is_less data))
                   (length (filter is_greater_equal data)) = Inr (L, G)"
  shows "\<exists>result g' less' ge'.
           downsample_dataset fl shuffle g data r = Inr (result, g')
           \<and> mset result = mset (slice_to less' L) + mset (slice_to ge' G)
           \<and> mset less' = mset (filter is_less data)
           \<and> mset ge' = mset (filter is_greater_equal data)
           \<and> final_less result = Inr (length (filter is_less result))"
proof -
  let ?s1 = "shuffle g (filter is_less data)"
  let ?s2 = "shuffle (snd ?s1) (filter is_greater_equal data)"
  let ?pre = "slice_to (fst ?s1) L @ slice_to (fst ?s2) G"
  let ?s3 = "shuffle (snd ?s2) ?pre"
  have m1: "mset (fst ?s1) = mset (filter is_less data)" using perm by simp
  have m2: "mset (fst ?s2) = mset (filter is_greater_equal data)" using perm by simp
  have m3: "mset (fst ?s3) = mset (slice_to (fst ?s1) L) + mset (slice_to (fst ?s2) G)"
    using perm by simp
  have "set (fst ?s3) = set ?pre"
    using perm by (metis mset_eq_setD)
  also have "\<dots> \<subseteq> set (fst ?s1) \<union> set (fst ?s2)"
    using set_slice_to[of "fst ?s1" L] set_slice_to[of "fst ?s2" G] by auto
  also have "set (fst ?s1) = set (filter is_less data)"
    using m1 by (rule mset_eq_setD)
  also have "set (fst ?s2) = set (filter is_greater_equal data)"
    using m2 by (rule mset_eq_setD)
  finally have "set (fst ?s3) \<subseteq> set data" by auto
  with ok have "\<forall>item \<in> set (fst ?s3). \<exists>b. counts_as_less item = Inr b" by blast
  then have fl: "final_less (fst ?s3) = Inr (length (filter is_less (fst ?s3)))"
    by (rule final_less_filter)
  have "downsample_dataset fl shuffle g data r = Inr (fst ?s3, snd ?s3)"
    by (simp add: downsample_dataset_general_branch[OF ok ne r counts] Let_def fl)
  with m1 m2 m3 fl show ?thesis by blast
qed

lemma unscored_counts:
  assumes "map_of d ''chosen_score'' = None \<or> map_of d ''rejected_score'' = None"
  shows "counts_as_less (JObj d) = Inr False"
  using assms by (auto simp: counts_as_less_def split: option.splits)

lemma count_greater_equal_class:
  "is_greater_equal item \<Longrightarrow>
     count (mset (filter is_greater_equal data)) item = count (mset data) item"
  by (simp add: mset_filter)

lemma count_slice_less:
  assumes "mset less' = mset (filter is_less data)" and "\<not> is_less item"
  shows "count (mset (slice_to less' L)) item = 0"
proof -
  have "item \<notin> set less'"
    using assms mset_eq_setD[OF assms(1)] by auto
  with set_slice_to[of less' L] have "item \<notin> set (slice_to less' L)" by auto
  then show ?thesis by (simp add: count_eq_zero_iff)
qed


text \<open>
  Claim C9. The classification loop splits the input into the items on which the
  predicate holds and the dicts on which it does not; a dict that has neither
  \<^verbatim>\<open>chosen_score\<close> nor \<^verbatim>\<open>rejected_score\<close> is put into \<^verbatim>\<open>greater_equal\<close> (class B) and not into
  \<^verbatim>\<open>less_than\<close>. In every branch that keeps all of
  class B (the true class is empty; \<^verbatim>\<open>target_ratio <= 0\<close>; the sampling branch when its
  count for class B is the size of class B), the output holds the item as many times as
  the input does. The shuffle is any function that returns a permutation of its list.
\<close>

theorem unscored_items_kept:
  assumes missing: "map_of d ''chosen_score'' = None \<and> map_of d ''rejected_score'' = None"
    and mem: "JObj d \<in> set data"
    and ok: "\<forall>item \<in> set data. \<exists>b. counts_as_less item = Inr b"
    and perm: "\<forall>g xs. mset (fst (shuffle g xs)) = mset xs"
  shows "classify data ([], []) = Inr (filter is_less data, filter is_greater_equal data)
       \<and> is_greater_equal (JObj d) \<and> \<not> is_less (JObj d)
       \<and> JObj d \<in> set (filter is_greater_equal data)
       \<and> JObj d \<notin> set (filter is_less data)
       \<and> (filter is_less data = [] \<or> r \<le> 0
            \<or> (0 < r \<and> r < 1
                \<and> (\<exists>L. sample_counts fl r (length (filter is_less data))
                           (length (filter is_greater_equal data))
                         = Inr (L, int (length (filter is_greater_equal data)))))
          \<longrightarrow> (\<exists>result g'. downsample_dataset fl shuffle g data r = Inr (result, g')
                  \<and> count (mset result) (JObj d) = count (mset data) (JObj d)))"
proof -
  let ?a = "length (filter is_less data)"
  let ?b = "length (filter is_greater_equal data)"
  from missing have c: "counts_as_less (JObj d) = Inr False"
    by (intro unscored_counts) simp
  have ge: "is_greater_equal (JObj d)" and nl: "\<not> is_less (JObj d)"
    by (simp_all add: counts_as_less_cases[OF c])
  from ge mem have cls: "JObj d \<in> set (filter is_greater_equal data)" by simp
  note cl = classify_filter_start[OF ok]
  have kept: "\<exists>result g'. downsample_dataset fl shuffle g data r = Inr (result, g')
                  \<and> count (mset result) (JObj d) = count (mset data) (JObj d)"
    if branch: "filter is_less data = [] \<or> r \<le> 0
            \<or> (0 < r \<and> r < 1 \<and> (\<exists>L. sample_counts fl r ?a ?b = Inr (L, int ?b)))"
  proof (cases "filter is_less data = []")
    case True
    then have "downsample_dataset fl shuffle g data r = Inr (data, g)"
      by (simp add: downsample_dataset_def cl)
    then show ?thesis by simp
  next
    case ne: False
    show ?thesis
    proof (cases "r \<le> 0")
      case True
      with ne have "downsample_dataset fl shuffle g data r = Inr (filter is_greater_equal data, g)"
        by (simp add: downsample_dataset_def cl)
      with count_greater_equal_class[OF ge, of data] show ?thesis by simp
    next
      case False
      with ne branch have r: "0 < r" "r < 1" and G: "\<exists>L. sample_counts fl r ?a ?b = Inr (L, int ?b)"
        by simp_all
      from G obtain L where counts: "sample_counts fl r ?a ?b = Inr (L, int ?b)" ..
      from downsample_dataset_general_result[OF ok perm ne r counts, of g]
      obtain result g' less' ge' where
        res: "downsample_dataset fl shuffle g data r = Inr (result, g')"
        and m: "mset result = mset (slice_to less' L) + mset (slice_to ge' (int ?b))"
        and ml: "mset less' = mset (filter is_less data)"
        and mg: "mset ge' = mset (filter is_greater_equal data)"
        by blast
      from mg have "length ge' = ?b" by (rule mset_eq_length)
      then have "slice_to ge' (int ?b) = ge'"
        using slice_to_all[of ge'] by simp
      with m mg have "count (mset result) (JObj d)
          = count (mset (slice_to less' L)) (JObj d)
            + count (mset (filter is_greater_equal data)) (JObj d)"
        by simp
      also have "\<dots> = count (mset data) (JObj d)"
        using count_slice_less[OF ml nl, of L] count_greater_equal_class[OF ge, of data]
        by arith
      finally show ?thesis using res by blast
    qed
  qed
  from nl have ncls: "JObj d \<notin> set (filter is_less data)" by simp
  from cl ge nl cls ncls kept show ?thesis by blast
qed


theorem unscored_items_kept_witness:
  "map_of unscored_pair ''chosen_score'' = None \<and> map_of unscored_pair ''rejected_score'' = None
   \<and> sample_counts (\<lambda>x. x) (1 / 2) 2 2 = Inr (2, 2)
   \<and> is_greater_equal (JObj unscored_pair)
   \<and> (\<exists>result g'.
         downsample_dataset (\<lambda>x. x) no_shuffle ()
           [JObj inverted_pair, JObj unscored_pair, JObj inverted_pair, JObj ordered_pair] (1 / 2)
           = Inr (result, g')
         \<and> count (mset result) (JObj unscored_pair)
           = count (mset [JObj inverted_pair, JObj unscored_pair, JObj inverted_pair,
                          JObj ordered_pair]) (JObj unscored_pair))"
proof -
  let ?data = "[JObj inverted_pair, JObj unscored_pair, JObj inverted_pair, JObj ordered_pair]"
  have missing: "map_of unscored_pair ''chosen_score'' = None
      \<and> map_of unscored_pair ''rejected_score'' = None"
    by (simp add: unscored_pair_def)
  have mem: "JObj unscored_pair \<in> set ?data" by simp
  have ok: "\<forall>item \<in> set ?data. \<exists>b. counts_as_less item = Inr b"
    by (auto simp: example_pairs_counts)
  have perm: "\<forall>g xs. mset (fst (no_shuffle g xs)) = mset xs"
    by (simp add: no_shuffle_def)
  have a: "length (filter is_less ?data) = 2" and b: "length (filter is_greater_equal ?data) = 2"
    by (simp_all add: example_pairs_classes)
  have counts: "sample_counts (\<lambda>x. x) (1 / 2) 2 2 = Inr (2, 2)"
    by (simp add: sample_counts_def py_truediv_def py_int_def)
  note t = unscored_items_kept[OF missing mem ok perm, of "1 / 2" "\<lambda>x. x" "()"]
  have "\<exists>result g'. downsample_dataset (\<lambda>x. x) no_shuffle () ?data (1 / 2) = Inr (result, g')
          \<and> count (mset result) (JObj unscored_pair) = count (mset ?data) (JObj unscored_pair)"
    by (rule t[THEN conjunct2, THEN conjunct2, THEN conjunct2, THEN conjunct2, THEN conjunct2,
          THEN mp], intro disjI2)
      (simp only: a b, simp add: counts)
  with missing counts t[THEN conjunct2, THEN conjunct1] show ?thesis
    by (intro conjI) (elim conjE, assumption)+
qed


section \<open>The sampling plan\<close>

text \<open>
  The two quotients of lines 87 and 94 are computed in floating point. What follows
  needs of the rounding only that its relative error is at most \<open>u\<close>, with \<open>u\<close> small
  against the class sizes; exact arithmetic is the case \<open>u = 0\<close>.
\<close>

lemma py_int_nonneg: "0 \<le> x \<Longrightarrow> py_int x = \<lfloor>x\<rfloor>"
  by (simp add: py_int_def)

lemma counts_core:
  fixes r X Y :: real and a b :: nat
  assumes r: "0 < r" "r < 1" and a: "0 < a" and b: "0 < b"
    and X: "\<bar>(1 - r) * X - r * real b\<bar> \<le> r"
    and Y: "\<bar>r * Y - (1 - r) * real a\<bar> \<le> 1 - r"
    and LG: "(L, G) = (if py_int X > int a then (min (int a) (int a), min (py_int Y) (int b))
                       else (min (py_int X) (int a), min (int b) (int b)))"
  shows "0 \<le> L \<and> L \<le> int a \<and> 0 \<le> G \<and> G \<le> int b \<and> 0 < L + G
         \<and> \<bar>(1 - r) * real_of_int L - r * real_of_int G\<bar> \<le> 1"
proof -
  define s where "s = 1 - r"
  have s: "0 < s" "s < 1" "r + s = 1" using r by (simp_all add: s_def)
  have a1: "1 \<le> real a" and b1: "1 \<le> real b" using a b by simp_all
  have sX: "s * X \<le> r * real b + r" "r * real b - r \<le> s * X"
    using X by (simp_all add: s_def abs_le_iff)
  have rY: "r * Y \<le> s * real a + s" "s * real a - s \<le> r * Y"
    using Y by (simp_all add: s_def abs_le_iff)
  have "0 \<le> r * (real b - 1)" using r b1 by simp
  then have "0 \<le> r * real b - r" by (simp add: algebra_simps)
  with sX(2) have "0 \<le> s * X" by linarith
  with s(1) have X0: "0 \<le> X" by (simp add: zero_le_mult_iff)
  have "0 \<le> s * (real a - 1)" using s a1 by simp
  then have "0 \<le> s * real a - s" by (simp add: algebra_simps)
  with rY(2) have "0 \<le> r * Y" by linarith
  with r(1) have Y0: "0 \<le> Y" by (simp add: zero_le_mult_iff)
  have pX: "py_int X = \<lfloor>X\<rfloor>" using X0 by (rule py_int_nonneg)
  have pY: "py_int Y = \<lfloor>Y\<rfloor>" using Y0 by (rule py_int_nonneg)
  have fX: "real_of_int \<lfloor>X\<rfloor> \<le> X" "X < real_of_int \<lfloor>X\<rfloor> + 1" by linarith+
  have fY: "real_of_int \<lfloor>Y\<rfloor> \<le> Y" "Y < real_of_int \<lfloor>Y\<rfloor> + 1" by linarith+
  have X0': "0 \<le> \<lfloor>X\<rfloor>" using X0 by simp
  have Y0': "0 \<le> \<lfloor>Y\<rfloor>" using Y0 by simp
  have sfX: "s * real_of_int \<lfloor>X\<rfloor> \<le> s * X" "s * X < s * real_of_int \<lfloor>X\<rfloor> + s"
  proof -
    show "s * real_of_int \<lfloor>X\<rfloor> \<le> s * X"
      using fX(1) s(1) by (simp only: mult_le_cancel_left_pos)
    have "s * X < s * (real_of_int \<lfloor>X\<rfloor> + 1)"
      using fX(2) s(1) by (simp only: mult_less_cancel_left_pos)
    then show "s * X < s * real_of_int \<lfloor>X\<rfloor> + s"
      by (simp add: distrib_left)
  qed
  have rfY: "r * real_of_int \<lfloor>Y\<rfloor> \<le> r * Y" "r * Y < r * real_of_int \<lfloor>Y\<rfloor> + r"
  proof -
    show "r * real_of_int \<lfloor>Y\<rfloor> \<le> r * Y"
      using fY(1) r(1) by (simp only: mult_le_cancel_left_pos)
    have "r * Y < r * (real_of_int \<lfloor>Y\<rfloor> + 1)"
      using fY(2) r(1) by (simp only: mult_less_cancel_left_pos)
    then show "r * Y < r * real_of_int \<lfloor>Y\<rfloor> + r"
      by (simp add: distrib_left)
  qed
  show ?thesis
  proof (cases "\<lfloor>X\<rfloor> > int a")
    case False
    with LG pX have L: "L = \<lfloor>X\<rfloor>" and G: "G = int b" by simp_all
    have "s * real_of_int \<lfloor>X\<rfloor> - r * real b \<le> 1"
      using sfX(1) sX(1) r by linarith
    moreover have "- 1 \<le> s * real_of_int \<lfloor>X\<rfloor> - r * real b"
      using sfX(2) sX(2) s(3) by linarith
    ultimately have "\<bar>s * real_of_int \<lfloor>X\<rfloor> - r * real b\<bar> \<le> 1"
      unfolding abs_le_iff by linarith
    then have core: "\<bar>(1 - r) * real_of_int L - r * real_of_int G\<bar> \<le> 1"
      by (simp add: L G s_def)
    have "0 \<le> L" "L \<le> int a" "0 \<le> G" "G \<le> int b" "0 < L + G"
      using False X0' b unfolding L G by linarith+
    with core show ?thesis by (intro conjI)
  next
    case True
    with LG pX pY have L: "L = int a" and G: "G = min \<lfloor>Y\<rfloor> (int b)" by simp_all
    from True have "real a + 1 \<le> real_of_int \<lfloor>X\<rfloor>" by linarith
    then have "s * (real a + 1) \<le> s * real_of_int \<lfloor>X\<rfloor>"
      using s(1) by (simp only: mult_le_cancel_left_pos)
    then have sa1: "s * real a + s \<le> s * real_of_int \<lfloor>X\<rfloor>"
      by (simp add: algebra_simps)
    have "\<bar>s * real a - r * real_of_int G\<bar> \<le> 1"
    proof (cases "\<lfloor>Y\<rfloor> \<le> int b")
      case True
      then have GY: "G = \<lfloor>Y\<rfloor>" by (simp add: G)
      have "s * real a - r * real_of_int \<lfloor>Y\<rfloor> \<le> 1"
        using rfY(2) rY(2) s(3) by linarith
      moreover have "- 1 \<le> s * real a - r * real_of_int \<lfloor>Y\<rfloor>"
        using rfY(1) rY(1) s by linarith
      ultimately show ?thesis
        unfolding abs_le_iff GY by linarith
    next
      case False
      then have Gb: "G = int b" by (simp add: G)
      from False have "real b \<le> real_of_int \<lfloor>Y\<rfloor>" by linarith
      then have rb: "r * real b \<le> r * real_of_int \<lfloor>Y\<rfloor>"
        using r(1) by (simp only: mult_le_cancel_left_pos)
      have "s * real a - r * real b \<le> 1"
        using sa1 sfX(1) sX(1) s r by linarith
      moreover have "- 1 \<le> s * real a - r * real b"
        using rb rfY(1) rY(1) s by linarith
      ultimately show ?thesis
        unfolding abs_le_iff Gb by simp
    qed
    then have core: "\<bar>(1 - r) * real_of_int L - r * real_of_int G\<bar> \<le> 1"
      by (simp add: L s_def)
    have "0 \<le> L" "L \<le> int a" "0 \<le> G" "G \<le> int b" "0 < L + G"
      using Y0' a unfolding L G by linarith+
    with core show ?thesis by (intro conjI)
  qed
qed

lemma ratio_from_core:
  fixes L G :: int and r :: real
  assumes "0 \<le> L" "0 \<le> G" "0 < L + G"
    and "\<bar>(1 - r) * real_of_int L - r * real_of_int G\<bar> \<le> 1"
  shows "\<bar>real (nat L) / real (nat L + nat G) - r\<bar> \<le> 1 / real (nat L + nat G)"
proof -
  let ?N = "real (nat L + nat G)"
  have N: "0 < ?N" "?N = real_of_int L + real_of_int G" using assms(1-3) by simp_all
  have "real (nat L) / ?N - r = (real (nat L) - r * ?N) / ?N"
    using N(1) by (simp add: field_simps)
  also have "real (nat L) - r * ?N = (1 - r) * real_of_int L - r * real_of_int G"
    using assms(1,2) by (simp add: N(2) algebra_simps)
  finally have "\<bar>real (nat L) / ?N - r\<bar> = \<bar>(1 - r) * real_of_int L - r * real_of_int G\<bar> / ?N"
    using N(1) by simp
  also have "\<dots> \<le> 1 / ?N"
    using assms(4) N(1) by (simp add: divide_right_mono)
  finally show ?thesis .
qed

lemma fl_bounds:
  fixes fl :: "real \<Rightarrow> real"
  assumes rel: "\<forall>x. \<bar>fl x - x\<bar> \<le> u * \<bar>x\<bar>" and u: "0 \<le> u" "u \<le> 1" and t: "0 \<le> t"
  shows "(1 - u) * t \<le> fl t" and "fl t \<le> (1 + u) * t" and "0 \<le> fl t"
proof -
  from rel have "\<bar>fl t - t\<bar> \<le> u * \<bar>t\<bar>" by blast
  with t have b: "fl t - t \<le> u * t" "- (u * t) \<le> fl t - t"
    by (simp_all add: abs_le_iff)
  from b(2) show lo: "(1 - u) * t \<le> fl t" by (simp add: algebra_simps)
  from b(1) show "fl t \<le> (1 + u) * t" by (simp add: algebra_simps)
  have "0 \<le> (1 - u) * t" using u t by simp
  with lo show "0 \<le> fl t" by linarith
qed

lemma cube_up:
  fixes u b :: real
  assumes u: "0 \<le> u" and b: "1 \<le> b" and ub: "8 * (u * b) \<le> 1"
  shows "(1 + u) * ((1 + u) * ((1 + u) * b)) \<le> (1 - u) * (b + 1)"
proof -
  define w where "w = u * b"
  have w: "0 \<le> w" "8 * w \<le> 1" using u b ub by (simp_all add: w_def)
  have "u * 1 \<le> u * b" by (rule mult_left_mono[OF b u])
  then have u8: "8 * u \<le> 1" using ub by simp
  have uw: "0 \<le> u * w" "8 * (u * w) \<le> w"
  proof -
    show "0 \<le> u * w" using u w by simp
    have "u * w \<le> (1 / 8) * w" using u8 w(1) by (intro mult_right_mono) simp_all
    then show "8 * (u * w) \<le> w" by simp
  qed
  have uuw: "0 \<le> u * (u * w)" "8 * (u * (u * w)) \<le> u * w"
  proof -
    show "0 \<le> u * (u * w)" using u uw by simp
    have "u * (u * w) \<le> (1 / 8) * (u * w)" using u8 uw(1) by (intro mult_right_mono) simp_all
    then show "8 * (u * (u * w)) \<le> u * w" by simp
  qed
  have l: "(1 + u) * ((1 + u) * ((1 + u) * b)) = b + 3 * w + 3 * (u * w) + u * (u * w)"
    by (simp add: w_def algebra_simps)
  have h: "(1 - u) * (b + 1) = b + 1 - w - u"
    by (simp add: w_def algebra_simps)
  show ?thesis unfolding l h using w uw uuw u8 by linarith
qed

lemma cube_down:
  fixes u b :: real
  assumes u: "0 \<le> u" and b: "1 \<le> b" and ub: "8 * (u * b) \<le> 1"
  shows "(1 + u) * (b - 1) \<le> (1 - u) * ((1 - u) * ((1 - u) * b))"
proof -
  define w where "w = u * b"
  have w: "0 \<le> w" "8 * w \<le> 1" using u b ub by (simp_all add: w_def)
  have "u * 1 \<le> u * b" by (rule mult_left_mono[OF b u])
  then have u8: "8 * u \<le> 1" using ub by simp
  have uw: "0 \<le> u * w" "8 * (u * w) \<le> w"
  proof -
    show "0 \<le> u * w" using u w by simp
    have "u * w \<le> (1 / 8) * w" using u8 w(1) by (intro mult_right_mono) simp_all
    then show "8 * (u * w) \<le> w" by simp
  qed
  have uuw: "0 \<le> u * (u * w)" "8 * (u * (u * w)) \<le> u * w"
  proof -
    show "0 \<le> u * (u * w)" using u uw by simp
    have "u * (u * w) \<le> (1 / 8) * (u * w)" using u8 uw(1) by (intro mult_right_mono) simp_all
    then show "8 * (u * (u * w)) \<le> u * w" by simp
  qed
  have l: "(1 - u) * ((1 - u) * ((1 - u) * b)) = b - 3 * w + 3 * (u * w) - u * (u * w)"
    by (simp add: w_def algebra_simps)
  have h: "(1 + u) * (b - 1) = b - 1 + w - u"
    by (simp add: w_def algebra_simps)
  show ?thesis unfolding l h using w uw uuw u8 u by linarith
qed

lemma fourth_up:
  fixes u a :: real
  assumes u: "0 \<le> u" and a: "1 \<le> a" and ua: "8 * (u * a) \<le> 1"
  shows "(1 + u) * ((1 + u) * ((1 + u) * ((1 + u) * a))) \<le> a + 1"
proof -
  have "(1 + u) * ((1 + u) * ((1 + u) * a)) \<le> (1 - u) * (a + 1)"
    using u a ua by (rule cube_up)
  then have "(1 + u) * ((1 + u) * ((1 + u) * ((1 + u) * a))) \<le> (1 + u) * ((1 - u) * (a + 1))"
    using u by (intro mult_left_mono) simp_all
  also have "\<dots> = (1 - u * u) * (a + 1)" by (simp add: algebra_simps)
  also have "\<dots> \<le> 1 * (a + 1)" using u a by (intro mult_right_mono) simp_all
  finally show ?thesis by simp
qed

lemma fourth_down:
  fixes u a :: real
  assumes u: "0 \<le> u" and a: "1 \<le> a" and ua: "8 * (u * a) \<le> 1"
  shows "a - 1 \<le> (1 - u) * ((1 - u) * ((1 - u) * ((1 - u) * a)))"
proof -
  define w where "w = u * a"
  have w: "0 \<le> w" "8 * w \<le> 1" using u a ua by (simp_all add: w_def)
  have "u * 1 \<le> u * a" by (rule mult_left_mono[OF a u])
  then have u8: "8 * u \<le> 1" using ua by simp
  have uw: "0 \<le> u * w" "8 * (u * w) \<le> w"
  proof -
    show "0 \<le> u * w" using u w by simp
    have "u * w \<le> (1 / 8) * w" using u8 w(1) by (intro mult_right_mono) simp_all
    then show "8 * (u * w) \<le> w" by simp
  qed
  have uuw: "0 \<le> u * (u * w)" "8 * (u * (u * w)) \<le> u * w"
  proof -
    show "0 \<le> u * (u * w)" using u uw by simp
    have "u * (u * w) \<le> (1 / 8) * (u * w)" using u8 uw(1) by (intro mult_right_mono) simp_all
    then show "8 * (u * (u * w)) \<le> u * w" by simp
  qed
  have uuuw: "0 \<le> u * (u * (u * w))" using u uuw by simp
  have l: "(1 - u) * ((1 - u) * ((1 - u) * ((1 - u) * a)))
      = a - 4 * w + 6 * (u * w) - 4 * (u * (u * w)) + u * (u * (u * w))"
    by (simp add: w_def algebra_simps)
  show ?thesis unfolding l using w uw uuw uuuw by linarith
qed

lemma rounded_less_quotient:
  fixes fl :: "real \<Rightarrow> real" and r u :: real and b :: nat
  assumes rel: "\<forall>x. \<bar>fl x - x\<bar> \<le> u * \<bar>x\<bar>" and u: "0 \<le> u"
    and r: "0 < r" "r < 1" and b: "0 < b" and ub: "8 * (u * real b) \<le> 1"
  shows "\<bar>(1 - r) * fl (fl (r * fl (real b)) / fl (1 - r)) - r * real b\<bar> \<le> r"
proof -
  define s where "s = 1 - r"
  define B where "B = fl (real b)"
  define P where "P = fl (r * B)"
  define S where "S = fl s"
  define Q where "Q = P / S"
  define X where "X = fl Q"
  have s: "0 < s" using r by (simp add: s_def)
  have b1: "1 \<le> real b" using b by simp
  have "u * 1 \<le> u * real b" by (rule mult_left_mono[OF b1 u])
  then have u8: "8 * u \<le> 1" using ub by simp
  then have u1: "u \<le> 1" and um: "0 < 1 - u" and up: "0 < 1 + u" using u by simp_all
  note flb = fl_bounds[OF rel u u1]
  have B: "(1 - u) * real b \<le> B" "B \<le> (1 + u) * real b" "0 \<le> B"
    unfolding B_def by (rule flb, simp)+
  have rB0: "0 \<le> r * B" using r B(3) by simp
  have P: "(1 - u) * (r * B) \<le> P" "P \<le> (1 + u) * (r * B)" "0 \<le> P"
    unfolding P_def by (rule flb, rule rB0)+
  have S: "(1 - u) * s \<le> S" "S \<le> (1 + u) * s"
    unfolding S_def using s by (intro flb, simp)+
  have "0 < (1 - u) * s" using um s by simp
  with S(1) have S0: "0 < S" by linarith
  have Q0: "0 \<le> Q" unfolding Q_def using P(3) S0 by simp
  have X: "(1 - u) * Q \<le> X" "X \<le> (1 + u) * Q"
    unfolding X_def by (rule flb, rule Q0)+
  have SQ: "S * Q = P" unfolding Q_def using S0 by simp
  have upper: "s * X \<le> r * real b + r"
  proof -
    have "(1 - u) * (s * X) \<le> (1 - u) * (s * ((1 + u) * Q))"
      using X(2) s um by (intro mult_left_mono) simp_all
    also have "\<dots> = (1 + u) * (((1 - u) * s) * Q)" by simp
    also have "\<dots> \<le> (1 + u) * (S * Q)"
      using S(1) Q0 up by (intro mult_left_mono mult_right_mono) simp_all
    also have "\<dots> = (1 + u) * P" by (simp only: SQ)
    also have "\<dots> \<le> (1 + u) * ((1 + u) * (r * B))"
      using P(2) up by (intro mult_left_mono) simp_all
    also have "\<dots> \<le> (1 + u) * ((1 + u) * (r * ((1 + u) * real b)))"
      using B(2) up r by (intro mult_left_mono) simp_all
    also have "\<dots> = r * ((1 + u) * ((1 + u) * ((1 + u) * real b)))" by simp
    also have "\<dots> \<le> r * ((1 - u) * (real b + 1))"
      using cube_up[OF u b1 ub] r by (intro mult_left_mono) simp_all
    also have "\<dots> = (1 - u) * (r * real b + r)" by (simp add: algebra_simps)
    finally show ?thesis using um by (simp only: mult_le_cancel_left_pos)
  qed
  have lower: "r * real b - r \<le> s * X"
  proof -
    have "(1 + u) * (r * real b - r) = r * ((1 + u) * (real b - 1))" by (simp add: algebra_simps)
    also have "\<dots> \<le> r * ((1 - u) * ((1 - u) * ((1 - u) * real b)))"
      using cube_down[OF u b1 ub] r by (intro mult_left_mono) simp_all
    also have "\<dots> = (1 - u) * ((1 - u) * (r * ((1 - u) * real b)))" by simp
    also have "\<dots> \<le> (1 - u) * ((1 - u) * (r * B))"
      using B(1) um r by (intro mult_left_mono) simp_all
    also have "\<dots> \<le> (1 - u) * P"
      using P(1) um by (intro mult_left_mono) simp_all
    also have "\<dots> = (1 - u) * (S * Q)" by (simp only: SQ)
    also have "\<dots> \<le> (1 - u) * (((1 + u) * s) * Q)"
      using S(2) Q0 um by (intro mult_left_mono mult_right_mono) simp_all
    also have "\<dots> = (1 + u) * (s * ((1 - u) * Q))" by simp
    also have "\<dots> \<le> (1 + u) * (s * X)"
      using X(1) s up by (intro mult_left_mono) simp_all
    finally show ?thesis using up by (simp only: mult_le_cancel_left_pos)
  qed
  from upper lower have "\<bar>s * X - r * real b\<bar> \<le> r"
    unfolding abs_le_iff by linarith
  then show ?thesis
    unfolding s_def X_def Q_def P_def S_def B_def s_def .
qed

lemma rounded_greater_quotient:
  fixes fl :: "real \<Rightarrow> real" and r u :: real and a :: nat
  assumes rel: "\<forall>x. \<bar>fl x - x\<bar> \<le> u * \<bar>x\<bar>" and u: "0 \<le> u"
    and r: "0 < r" "r < 1" and a: "0 < a" and ua: "8 * (u * real a) \<le> 1"
  shows "\<bar>r * fl (fl (fl (real a) * fl (1 - r)) / r) - (1 - r) * real a\<bar> \<le> 1 - r"
proof -
  define s where "s = 1 - r"
  define A where "A = fl (real a)"
  define S where "S = fl s"
  define M where "M = fl (A * S)"
  define Q where "Q = M / r"
  define Y where "Y = fl Q"
  have s: "0 < s" using r by (simp add: s_def)
  have a1: "1 \<le> real a" using a by simp
  have "u * 1 \<le> u * real a" by (rule mult_left_mono[OF a1 u])
  then have u8: "8 * u \<le> 1" using ua by simp
  then have u1: "u \<le> 1" and um: "0 < 1 - u" and up: "0 < 1 + u" using u by simp_all
  note flb = fl_bounds[OF rel u u1]
  have A: "(1 - u) * real a \<le> A" "A \<le> (1 + u) * real a" "0 \<le> A"
    unfolding A_def by (rule flb, simp)+
  have S: "(1 - u) * s \<le> S" "S \<le> (1 + u) * s" "0 \<le> S"
    unfolding S_def using s by (intro flb, simp)+
  have AS0: "0 \<le> A * S" using A(3) S(3) by simp
  have M: "(1 - u) * (A * S) \<le> M" "M \<le> (1 + u) * (A * S)" "0 \<le> M"
    unfolding M_def by (rule flb, rule AS0)+
  have Q0: "0 \<le> Q" unfolding Q_def using M(3) r by simp
  have Y: "(1 - u) * Q \<le> Y" "Y \<le> (1 + u) * Q"
    unfolding Y_def by (rule flb, rule Q0)+
  have rQ: "r * Q = M" unfolding Q_def using r by simp
  have AS_up: "A * S \<le> ((1 + u) * real a) * ((1 + u) * s)"
    using A S by (intro mult_mono) simp_all
  have lo0: "0 \<le> (1 - u) * real a" "0 \<le> (1 - u) * s" using um s by simp_all
  have AS_lo: "((1 - u) * real a) * ((1 - u) * s) \<le> A * S"
    using A S lo0 by (intro mult_mono) simp_all
  have upper: "r * Y \<le> s * real a + s"
  proof -
    have "r * Y \<le> r * ((1 + u) * Q)"
      using Y(2) r by (intro mult_left_mono) simp_all
    also have "\<dots> = (1 + u) * M" using rQ by (simp add: algebra_simps)
    also have "\<dots> \<le> (1 + u) * ((1 + u) * (A * S))"
      using M(2) up by (intro mult_left_mono) simp_all
    also have "\<dots> \<le> (1 + u) * ((1 + u) * (((1 + u) * real a) * ((1 + u) * s)))"
      using AS_up up by (intro mult_left_mono) simp_all
    also have "\<dots> = s * ((1 + u) * ((1 + u) * ((1 + u) * ((1 + u) * real a))))" by simp
    also have "\<dots> \<le> s * (real a + 1)"
      using fourth_up[OF u a1 ua] s by (intro mult_left_mono) simp_all
    also have "\<dots> = s * real a + s" by (simp add: algebra_simps)
    finally show ?thesis .
  qed
  have lower: "s * real a - s \<le> r * Y"
  proof -
    have "s * real a - s = s * (real a - 1)" by (simp add: algebra_simps)
    also have "\<dots> \<le> s * ((1 - u) * ((1 - u) * ((1 - u) * ((1 - u) * real a))))"
      using fourth_down[OF u a1 ua] s by (intro mult_left_mono) simp_all
    also have "\<dots> = (1 - u) * ((1 - u) * (((1 - u) * real a) * ((1 - u) * s)))" by simp
    also have "\<dots> \<le> (1 - u) * ((1 - u) * (A * S))"
      using AS_lo um by (intro mult_left_mono) simp_all
    also have "\<dots> \<le> (1 - u) * M"
      using M(1) um by (intro mult_left_mono) simp_all
    also have "\<dots> = r * ((1 - u) * Q)" using rQ by (simp add: algebra_simps)
    also have "\<dots> \<le> r * Y"
      using Y(1) r by (intro mult_left_mono) simp_all
    finally show ?thesis .
  qed
  from upper lower have "\<bar>r * Y - s * real a\<bar> \<le> s"
    unfolding abs_le_iff by linarith
  then show ?thesis
    unfolding s_def Y_def Q_def M_def S_def A_def s_def .
qed

lemma sample_counts_eq:
  assumes "fl (1 - r) \<noteq> 0" and "r \<noteq> 0"
  shows "sample_counts fl r a b =
     Inr (if py_int (fl (fl (r * fl (real b)) / fl (1 - r))) > int a
      then (min (int a) (int a), min (py_int (fl (fl (fl (real a) * fl (1 - r)) / r))) (int b))
      else (min (py_int (fl (fl (r * fl (real b)) / fl (1 - r)))) (int a), min (int b) (int b)))"
  using assms by (simp add: sample_counts_def py_truediv_def Let_def)

lemma greater_equal_not_less: "is_greater_equal item \<Longrightarrow> \<not> is_less item"
  by (simp add: is_greater_equal_def is_less_def)

lemma filter_take_all: "\<forall>x \<in> set xs. P x \<Longrightarrow> filter P (take n xs) = take n xs"
  by (simp add: filter_id_conv) (meson in_set_takeD)

lemma filter_take_none: "\<forall>x \<in> set xs. \<not> P x \<Longrightarrow> filter P (take n xs) = []"
  by (simp add: filter_empty_conv) (meson in_set_takeD)

lemma example_collection_classes:
  "filter is_less example_collection = replicate 10 (JObj inverted_pair)"
  "filter is_greater_equal example_collection = replicate 90 (JObj ordered_pair)"
  by (simp_all add: example_collection_def example_pairs_classes)


text \<open>
  Claim C3. Let the input have \<open>a > 0\<close> items in the true class and \<open>b > 0\<close> in the other,
  let \<open>0 < target_ratio < 1\<close>, let the shuffle return permutations, and let every float
  operation round with relative error at most \<open>u\<close>, where \<open>8 u a \<le> 1\<close> and \<open>8 u b \<le> 1\<close>
  (for binary64, \<open>u = 2\<^sup>-\<^sup>5\<^sup>3\<close>: class sizes up to \<open>2\<^sup>5\<^sup>0\<close>). Then the two sample counts
  are integers with \<open>0 \<le> required_less \<le> a\<close> and \<open>0 \<le> required_greater_equal \<le> b\<close>; the
  function returns a non-empty list of \<open>required_less + required_greater_equal \<le> a + b\<close>
  items, of which exactly \<open>required_less\<close> satisfy the predicate (this is the
  \<^verbatim>\<open>final_less\<close> the code counts); and the achieved fraction differs from \<^verbatim>\<open>target_ratio\<close>
  by at most \<open>1 / len(result)\<close>.
\<close>

theorem sample_counts_bounded:
  assumes ok: "\<forall>item \<in> set data. \<exists>b. counts_as_less item = Inr b"
    and perm: "\<forall>g xs. mset (fst (shuffle g xs)) = mset xs"
    and rel: "\<forall>x. \<bar>fl x - x\<bar> \<le> u * \<bar>x\<bar>" and u: "0 \<le> u"
    and a: "a = length (filter is_less data)" "0 < a"
    and b: "b = length (filter is_greater_equal data)" "0 < b"
    and size: "8 * (u * real a) \<le> 1" "8 * (u * real b) \<le> 1"
    and r: "0 < r" "r < 1"
  shows "\<exists>L G result g'.
           sample_counts fl r a b = Inr (L, G)
           \<and> 0 \<le> L \<and> L \<le> int a \<and> 0 \<le> G \<and> G \<le> int b
           \<and> downsample_dataset fl shuffle g data r = Inr (result, g')
           \<and> length result = nat L + nat G \<and> length result \<le> a + b \<and> result \<noteq> []
           \<and> final_less result = Inr (nat L) \<and> length (filter is_less result) = nat L
           \<and> \<bar>real (nat L) / real (length result) - r\<bar> \<le> 1 / real (length result)"
proof -
  have "u * 1 \<le> u * real a" using a(2) u by (intro mult_left_mono) simp_all
  with size(1) u have u1: "u \<le> 1" and um: "0 < 1 - u" by simp_all
  have "(1 - u) * (1 - r) \<le> fl (1 - r)"
    using r by (intro fl_bounds(1)[OF rel u u1]) simp
  moreover have "0 < (1 - u) * (1 - r)" using um r by simp
  ultimately have nz: "fl (1 - r) \<noteq> 0" by linarith
  from r have rz: "r \<noteq> 0" by simp
  note eq = sample_counts_eq[where fl = fl and r = r and a = a and b = b, OF nz rz]
  obtain L G where LG: "sample_counts fl r a b = Inr (L, G)"
    unfolding eq by (cases "py_int (fl (fl (r * fl (real b)) / fl (1 - r))) > int a") simp_all
  let ?X = "fl (fl (r * fl (real b)) / fl (1 - r))"
  let ?Y = "fl (fl (fl (real a) * fl (1 - r)) / r)"
  have X: "\<bar>(1 - r) * ?X - r * real b\<bar> \<le> r"
    by (rule rounded_less_quotient[OF rel u r b(2) size(2)])
  have Y: "\<bar>r * ?Y - (1 - r) * real a\<bar> \<le> 1 - r"
    by (rule rounded_greater_quotient[OF rel u r a(2) size(1)])
  have "(L, G) = (if py_int ?X > int a then (min (int a) (int a), min (py_int ?Y) (int b))
                       else (min (py_int ?X) (int a), min (int b) (int b)))"
    using LG unfolding eq by simp
  from counts_core[OF r a(2) b(2) X Y this]
  have L0: "0 \<le> L" and La: "L \<le> int a" and G0: "0 \<le> G" and Gb: "G \<le> int b"
    and pos: "0 < L + G"
    and core: "\<bar>(1 - r) * real_of_int L - r * real_of_int G\<bar> \<le> 1"
    by simp_all
  have ne: "filter is_less data \<noteq> []" using a by auto
  from downsample_dataset_general_result[OF ok perm ne r LG[unfolded a(1) b(1)], of g]
  obtain result g' less' ge' where
    res: "downsample_dataset fl shuffle g data r = Inr (result, g')"
    and m: "mset result = mset (slice_to less' L) + mset (slice_to ge' G)"
    and ml: "mset less' = mset (filter is_less data)"
    and mg: "mset ge' = mset (filter is_greater_equal data)"
    and fin: "final_less result = Inr (length (filter is_less result))"
    by blast
  from ml have ll: "length less' = a" unfolding a(1) by (rule mset_eq_length)
  from mg have lg: "length ge' = b" unfolding b(1) by (rule mset_eq_length)
  have sl: "slice_to less' L = take (nat L) less'" using L0 by (rule slice_to_nonneg)
  have sg: "slice_to ge' G = take (nat G) ge'" using G0 by (rule slice_to_nonneg)
  have "length result = size (mset result)" by simp
  also have "\<dots> = length (take (nat L) less') + length (take (nat G) ge')"
    unfolding m sl sg by simp
  also have "\<dots> = nat L + nat G"
    using La Gb L0 G0 by (simp add: ll lg)
  finally have len: "length result = nat L + nat G" .
  have all_less: "\<forall>x \<in> set less'. is_less x"
    using mset_eq_setD[OF ml] by simp
  have none_less: "\<forall>x \<in> set ge'. \<not> is_less x"
    using mset_eq_setD[OF mg] by (simp add: greater_equal_not_less)
  have "length (filter is_less result) = size (filter_mset is_less (mset result))"
    by (simp flip: mset_filter)
  also have "\<dots> = length (filter is_less (take (nat L) less'))
      + length (filter is_less (take (nat G) ge'))"
    unfolding m sl sg by (simp flip: mset_filter)
  also have "\<dots> = nat L"
    using La L0 by (simp add: filter_take_all[OF all_less] filter_take_none[OF none_less] ll)
  finally have fless: "length (filter is_less result) = nat L" .
  have le: "length result \<le> a + b" using len La Gb by linarith
  have nonempty: "result \<noteq> []" using len pos by auto
  have ratio: "\<bar>real (nat L) / real (length result) - r\<bar> \<le> 1 / real (length result)"
    unfolding len by (rule ratio_from_core[OF L0 G0 pos core])
  from fin fless have fin': "final_less result = Inr (nat L)" by simp
  show ?thesis
    apply (rule exI[of _ L], rule exI[of _ G], rule exI[of _ result], rule exI[of _ g'])
    apply (intro conjI)
    apply (rule LG L0 La G0 Gb res len le nonempty fin' fless ratio)+
    done
qed

theorem sample_counts_bounded_witness:
  "length (filter is_less example_collection) = 10
   \<and> length (filter is_greater_equal example_collection) = 90
   \<and> sample_counts (\<lambda>x. x) (1 / 2) 10 90 = Inr (10, 10)
   \<and> (\<exists>L G result g'.
         sample_counts (\<lambda>x. x) (1 / 2) 10 90 = Inr (L, G)
         \<and> 0 \<le> L \<and> L \<le> int 10 \<and> 0 \<le> G \<and> G \<le> int 90
         \<and> downsample_dataset (\<lambda>x. x) no_shuffle () example_collection (1 / 2) = Inr (result, g')
         \<and> length result = nat L + nat G \<and> length result \<le> 10 + 90 \<and> result \<noteq> []
         \<and> final_less result = Inr (nat L) \<and> length (filter is_less result) = nat L
         \<and> \<bar>real (nat L) / real (length result) - 1 / 2\<bar> \<le> 1 / real (length result))"
proof -
  have ok: "\<forall>item \<in> set example_collection. \<exists>b. counts_as_less item = Inr b"
    by (auto simp: example_collection_def example_pairs_counts)
  have perm: "\<forall>g xs. mset (fst (no_shuffle g xs)) = mset xs"
    by (simp add: no_shuffle_def)
  have rel: "\<forall>x::real. \<bar>(\<lambda>x. x) x - x\<bar> \<le> 0 * \<bar>x\<bar>" by simp
  have a: "(10::nat) = length (filter is_less example_collection)"
    and b: "(90::nat) = length (filter is_greater_equal example_collection)"
    by (simp_all add: example_collection_classes)
  have counts: "sample_counts (\<lambda>x. x) (1 / 2) 10 90 = Inr (10, 10)"
    by (simp add: sample_counts_def py_truediv_def py_int_def)
  note t = sample_counts_bounded[OF ok perm rel _ a _ b, of "1 / 2" "()"]
  have "\<exists>L G result g'.
         sample_counts (\<lambda>x. x) (1 / 2) 10 90 = Inr (L, G)
         \<and> 0 \<le> L \<and> L \<le> int 10 \<and> 0 \<le> G \<and> G \<le> int 90
         \<and> downsample_dataset (\<lambda>x. x) no_shuffle () example_collection (1 / 2) = Inr (result, g')
         \<and> length result = nat L + nat G \<and> length result \<le> 10 + 90 \<and> result \<noteq> []
         \<and> final_less result = Inr (nat L) \<and> length (filter is_less result) = nat L
         \<and> \<bar>real (nat L) / real (length result) - 1 / 2\<bar> \<le> 1 / real (length result)"
    by (rule t) simp_all
  with a[symmetric] b[symmetric] counts show ?thesis by (intro conjI)
qed

end
